theory Spec2Isabelle
  imports Complex_Main
begin

section \<open>Progress event listener of the import view\<close>

text \<open>
  The listener registered by \<open>importSelectedFiles\<close> on the \<open>import-progress\<close> channel
  receives string payloads and updates two variables of the component:
  \<open>progressPercent\<close> (a JavaScript number) and \<open>progress\<close> (a string).

  JavaScript numbers are doubles. They are modelled with their special values, \<open>NaN\<close>,
  the two infinities and the negative zero, and a finite double is carried as the
  rational it stands for (\<open>Fin 0\<close> is the positive zero). The arithmetic rounds every
  finite result to the nearest double. Strings are lists of characters, a character
  standing for a code unit below 256.
\<close>

datatype jsnum = NaN | PosInf | NegInf | NegZero | Fin rat

definition is_neg :: "jsnum \<Rightarrow> bool" where
  "is_neg x = (case x of NegInf \<Rightarrow> True | NegZero \<Rightarrow> True | Fin r \<Rightarrow> r < 0 | _ \<Rightarrow> False)"

definition is_zero :: "jsnum \<Rightarrow> bool" where
  "is_zero x = (case x of NegZero \<Rightarrow> True | Fin r \<Rightarrow> r = 0 | _ \<Rightarrow> False)"

definition is_inf :: "jsnum \<Rightarrow> bool" where
  "is_inf x = (case x of PosInf \<Rightarrow> True | NegInf \<Rightarrow> True | _ \<Rightarrow> False)"

definition finite_value :: "jsnum \<Rightarrow> rat" where
  "finite_value x = (case x of Fin r \<Rightarrow> r | _ \<Rightarrow> 0)"

definition signed_zero :: "bool \<Rightarrow> jsnum" where
  "signed_zero neg = (if neg then NegZero else Fin 0)"

definition signed_inf :: "bool \<Rightarrow> jsnum" where
  "signed_inf neg = (if neg then NegInf else PosInf)"

text \<open>
  Rounding to the nearest double (IEEE 754 binary64), ties to the even mantissa. The
  doubles around a positive value of binary exponent \<open>e\<close> are the multiples of
  \<open>2 ^ (e - 52)\<close>, and below the exponent \<open>-1022\<close> (the subnormal range) the multiples of
  \<open>2 ^ (-1074)\<close>. A value that rounds to \<open>2 ^ 1024\<close> or more becomes an infinity, and one
  that rounds to nothing a zero, of the value's sign.
\<close>

function log2_floor :: "int \<Rightarrow> int" where
  "log2_floor n = (if n < 2 then 0 else 1 + log2_floor (n div 2))"
  by pat_completeness auto
termination
  by (relation "measure nat") auto

declare log2_floor.simps [simp del]

definition pow2 :: "int \<Rightarrow> rat" where
  "pow2 k = (if 0 \<le> k then 2 ^ nat k else 1 / 2 ^ nat (- k))"

text \<open>For \<open>x > 0\<close>, the \<open>e\<close> with \<open>2 ^ e \<le> x < 2 ^ (e + 1)\<close>.\<close>

definition binary_exponent :: "rat \<Rightarrow> int" where
  "binary_exponent x =
     (if 1 \<le> x then log2_floor \<lfloor>x\<rfloor>
      else let g = log2_floor \<lfloor>1 / x\<rfloor> in if pow2 (- g) \<le> x then - g else - g - 1)"

definition round_half_even :: "rat \<Rightarrow> int" where
  "round_half_even m =
     (let f = \<lfloor>m\<rfloor>; d = m - of_int f
      in if d < 1 / 2 then f else if 1 / 2 < d then f + 1 else if even f then f else f + 1)"

text \<open>The distance between the doubles around a positive value.\<close>

definition quantum :: "rat \<Rightarrow> rat" where
  "quantum a = pow2 (max (binary_exponent a) (- 1022) - 52)"

text \<open>The multiple of the quantum nearest to a positive value.\<close>

definition round_magnitude :: "rat \<Rightarrow> rat" where
  "round_magnitude a = of_int (round_half_even (a / quantum a)) * quantum a"

definition to_double :: "rat \<Rightarrow> jsnum" where
  "to_double x =
     (if x = 0 then Fin 0
      else if pow2 1024 \<le> round_magnitude \<bar>x\<bar> then signed_inf (x < 0)
      else if round_magnitude \<bar>x\<bar> = 0 then signed_zero (x < 0)
      else Fin (if x < 0 then - round_magnitude \<bar>x\<bar> else round_magnitude \<bar>x\<bar>))"

text \<open>The operator \<open>/\<close> on numbers: IEEE 754 division.\<close>

definition js_div :: "jsnum \<Rightarrow> jsnum \<Rightarrow> jsnum" where
  "js_div x y =
     (if x = NaN \<or> y = NaN then NaN
      else let s = (is_neg x \<noteq> is_neg y) in
        if is_inf x then (if is_inf y then NaN else signed_inf s)
        else if is_inf y then signed_zero s
        else if is_zero y then (if is_zero x then NaN else signed_inf s)
        else if is_zero x then signed_zero s
        else to_double (finite_value x / finite_value y))"

text \<open>The operator \<open>*\<close> on numbers.\<close>

definition js_mul :: "jsnum \<Rightarrow> jsnum \<Rightarrow> jsnum" where
  "js_mul x y =
     (if x = NaN \<or> y = NaN then NaN
      else let s = (is_neg x \<noteq> is_neg y) in
        if is_inf x \<or> is_inf y then (if is_zero x \<or> is_zero y then NaN else signed_inf s)
        else if is_zero x \<or> is_zero y then signed_zero s
        else to_double (finite_value x * finite_value y))"

text \<open>The comparison \<open>x > 0\<close>: false for \<open>NaN\<close> and for both zeros.\<close>

definition js_gt_zero :: "jsnum \<Rightarrow> bool" where
  "js_gt_zero x = (case x of PosInf \<Rightarrow> True | Fin r \<Rightarrow> 0 < r | _ \<Rightarrow> False)"

subsection \<open>String primitives\<close>

text \<open>\<open>String.prototype.startsWith\<close>.\<close>

definition startsWith :: "string \<Rightarrow> string \<Rightarrow> bool" where
  "startsWith s p = (take (length p) s = p)"

text \<open>
  \<open>String.prototype.split\<close> with a one-character separator: the parts between the
  separators, in order; a string without separator is its only part.
\<close>

function split :: "string \<Rightarrow> char \<Rightarrow> string list" where
  "split s c =
     takeWhile (\<lambda>x. x \<noteq> c) s #
       (case dropWhile (\<lambda>x. x \<noteq> c) s of [] \<Rightarrow> [] | _ # rest \<Rightarrow> split rest c)"
  by pat_completeness auto
termination
proof (relation "measure (\<lambda>(s, c). length s)")
  show "wf (measure (\<lambda>(s, c). length s))" by simp
next
  fix s :: string and c x rest
  assume "dropWhile (\<lambda>x. x \<noteq> c) s = x # rest"
  then have "length (x # rest) \<le> length s"
    using length_dropWhile_le [of "\<lambda>x. x \<noteq> c" s] by simp
  then show "((rest, c), (s, c)) \<in> measure (\<lambda>(s, c). length s)" by simp
qed

declare split.simps [simp del]

text \<open>
  \<open>parseInt\<close> with no radix: leading white space is skipped, a sign is read, a
  \<open>0x\<close> or \<open>0X\<close> prefix selects radix 16, and the longest run of digits of the radix is
  the value, rounded to the nearest double; with no digit the result is \<open>NaN\<close>. A zero
  after a minus sign is the negative zero. (The language standard lets an implementation
  read the decimal digits after the 20th significant one as zeros; the value is taken
  exactly here, which differs only for numerals of more than 20 digits.) The white space below 256 is tab, line feed,
  vertical tab, form feed, carriage return, space and no-break space.
\<close>

definition is_white_space :: "char \<Rightarrow> bool" where
  "is_white_space c =
     (c \<in> set [CHR 0x09, CHR 0x0A, CHR 0x0B, CHR 0x0C, CHR 0x0D, CHR 0x20, CHR 0xA0])"

definition digit_of :: "char \<Rightarrow> nat option" where
  "digit_of c =
     (let n = (of_char c :: nat) in
      if 48 \<le> n \<and> n \<le> 57 then Some (n - 48)
      else if 97 \<le> n \<and> n \<le> 122 then Some (n - 87)
      else if 65 \<le> n \<and> n \<le> 90 then Some (n - 55)
      else None)"

definition is_radix_digit :: "nat \<Rightarrow> char \<Rightarrow> bool" where
  "is_radix_digit R c = (case digit_of c of Some d \<Rightarrow> d < R | None \<Rightarrow> False)"

definition digit_value :: "char \<Rightarrow> nat" where
  "digit_value c = (case digit_of c of Some d \<Rightarrow> d | None \<Rightarrow> 0)"

definition math_int :: "nat \<Rightarrow> string \<Rightarrow> int" where
  "math_int R Z = foldl (\<lambda>acc c. acc * int R + int (digit_value c)) 0 Z"

definition parseInt :: "string \<Rightarrow> jsnum" where
  "parseInt inputString =
     (let S = dropWhile is_white_space inputString;
          neg = (S \<noteq> [] \<and> hd S = CHR ''-'');
          S1 = (if S \<noteq> [] \<and> (hd S = CHR ''+'' \<or> hd S = CHR ''-'') then tl S else S);
          hex = (take 2 S1 = ''0x'' \<or> take 2 S1 = ''0X'');
          R = (if hex then 16 else 10);
          S2 = (if hex then drop 2 S1 else S1);
          Z = takeWhile (is_radix_digit R) S2
      in if Z = [] then NaN
         else if math_int R Z = 0 then signed_zero neg
         else to_double (if neg then - of_int (math_int R Z) else of_int (math_int R Z)))"

subsection \<open>The listener\<close>

record import_view =
  progress :: string
  progressPercent :: jsnum

definition import_progress_listener :: "string \<Rightarrow> import_view \<Rightarrow> import_view" where
  "import_progress_listener message v =
     (if startsWith message ''PROGRESS_BYTES:'' then
        (let parts = split message CHR '':'' in
         if length parts = 3 then
           (let copied = parseInt (parts ! 1);
                total = parseInt (parts ! 2)
            in v\<lparr>progressPercent :=
                   (if js_gt_zero total then js_mul (js_div copied total) (Fin 100) else Fin 0)\<rparr>)
         else v)
      else if startsWith message ''PROGRESS:'' then
        (let parts = split message CHR '':'' in
         if length parts = 3 then
           v\<lparr>progressPercent :=
                js_mul (js_div (parseInt (parts ! 1)) (parseInt (parts ! 2))) (Fin 100)\<rparr>
         else v)
      else v\<lparr>progress := message\<rparr>)"

section \<open>Thumbnail generation of the import view\<close>

text \<open>
  The component keeps a cache of thumbnail payloads and a loading state per source path,
  a queue of paths still to be generated and a flag that a generation chain is running.
  The functions that generate thumbnails are \<open>async\<close>: they run until they await the
  backend (\<open>invoke('get_file_thumbnail')\<close>) or the timer, and go on when the awaited
  promise is settled or the timer fires; between two such points other handlers can run.
  The model makes this explicit. Each suspended call is a task of the state; a source
  function that awaits is split into the part before the await (which keeps the source's
  name) and the part after it (suffix \<open>_settled\<close>), and an event says which task goes on.
\<close>

datatype thumb_state = Pending | Loading | Loaded | Error

text \<open>The interface \<open>MediaFile\<close>; its field \<open>size\<close> is \<open>size_bytes\<close> here.\<close>

record MediaFile =
  name :: string
  path :: string
  size_bytes :: nat
  modified :: nat
  extension :: string
  is_image :: bool
  is_video :: bool

text \<open>How the promise of an \<open>invoke\<close> call is settled: resolved with the payload, or rejected.\<close>

datatype reply = Resolved string | Rejected string

text \<open>
  A suspended call: \<open>GenInvoke p\<close> is \<open>processNextThumbnail\<close> inside
  \<open>generateSingleThumbnail(p)\<close>, awaiting the backend; \<open>NextTimer\<close> is
  \<open>processNextThumbnail\<close> after the generation, awaiting \<open>tick()\<close> and the 50 ms timer that
  calls it again; \<open>GetInvoke p\<close> is \<open>getThumbnail(p)\<close> awaiting the backend.
\<close>

datatype task = GenInvoke string | NextTimer | GetInvoke string

record thumbs =
  thumbnailCache :: "string \<rightharpoonup> string"
  thumbnailLoadingStates :: "string \<rightharpoonup> thumb_state"
  thumbnailGenerationQueue :: "string list"
  isGeneratingThumbnails :: bool
  forceUpdate :: nat
  tasks :: "task list"
  invocations :: "string list"

text \<open>
  \<open>invocations\<close> lists the paths of the \<open>get_file_thumbnail\<close> calls made so far, in order.

  The test \<open>if (thumbnailCache[filePath])\<close>: an absent entry and the empty string are falsy.
\<close>

definition cached :: "thumbs \<Rightarrow> string \<Rightarrow> bool" where
  "cached s filePath = (case thumbnailCache s filePath of Some t \<Rightarrow> t \<noteq> [] | None \<Rightarrow> False)"

definition getThumbnailState :: "thumbs \<Rightarrow> string \<Rightarrow> thumb_state" where
  "getThumbnailState s filePath =
     (case thumbnailLoadingStates s filePath of Some st \<Rightarrow> st | None \<Rightarrow> Pending)"

text \<open>
  \<open>generateSingleThumbnail\<close> up to its await: the result says whether it awaits the backend
  (\<open>True\<close>) or has returned at the cache test.
\<close>

definition generateSingleThumbnail :: "string \<Rightarrow> thumbs \<Rightarrow> bool \<times> thumbs" where
  "generateSingleThumbnail filePath s =
     (if cached s filePath then (False, s)
      else (True, s\<lparr>thumbnailLoadingStates := (thumbnailLoadingStates s)(filePath \<mapsto> Loading),
                     forceUpdate := forceUpdate s + 1,
                     invocations := invocations s @ [filePath]\<rparr>))"

text \<open>The rest of \<open>generateSingleThumbnail\<close>: the \<open>try\<close> body after the await, or the \<open>catch\<close>.\<close>

definition generateSingleThumbnail_settled :: "string \<Rightarrow> reply \<Rightarrow> thumbs \<Rightarrow> thumbs" where
  "generateSingleThumbnail_settled filePath r s =
     (case r of
        Resolved thumbnail \<Rightarrow>
          s\<lparr>thumbnailCache := (thumbnailCache s)(filePath \<mapsto> thumbnail),
            thumbnailLoadingStates := (thumbnailLoadingStates s)(filePath \<mapsto> Loaded),
            forceUpdate := forceUpdate s + 1\<rparr>
      | Rejected err \<Rightarrow>
          s\<lparr>thumbnailLoadingStates := (thumbnailLoadingStates s)(filePath \<mapsto> Error),
            forceUpdate := forceUpdate s + 1\<rparr>)"

text \<open>
  \<open>processNextThumbnail\<close> up to its first await: with an empty queue it clears the flag and
  returns; otherwise it takes the first path off the queue, calls
  \<open>generateSingleThumbnail\<close> and is suspended, on the backend or, after a cache hit, on
  the timer.
\<close>

definition processNextThumbnail :: "thumbs \<Rightarrow> thumbs" where
  "processNextThumbnail s =
     (case thumbnailGenerationQueue s of
        [] \<Rightarrow> s\<lparr>isGeneratingThumbnails := False\<rparr>
      | filePath # rest \<Rightarrow>
          (let (awaiting, s') = generateSingleThumbnail filePath (s\<lparr>thumbnailGenerationQueue := rest\<rparr>)
           in s'\<lparr>tasks := tasks s' @ [if awaiting then GenInvoke filePath else NextTimer]\<rparr>))"

definition startThumbnailGeneration :: "thumbs \<Rightarrow> thumbs" where
  "startThumbnailGeneration s =
     (if isGeneratingThumbnails s \<or> thumbnailGenerationQueue s = [] then s
      else processNextThumbnail (s\<lparr>isGeneratingThumbnails := True\<rparr>))"

text \<open>The body of the \<open>forEach\<close> of \<open>initializeThumbnailGeneration\<close>.\<close>

definition mark_pending :: "thumbs \<Rightarrow> MediaFile \<Rightarrow> thumbs" where
  "mark_pending s file =
     (if is_image file \<or> is_video file
      then s\<lparr>thumbnailLoadingStates := (thumbnailLoadingStates s)(path file \<mapsto> Pending),
             thumbnailGenerationQueue := thumbnailGenerationQueue s @ [path file]\<rparr>
      else s)"

definition initializeThumbnailGeneration :: "MediaFile list \<Rightarrow> thumbs \<Rightarrow> thumbs" where
  "initializeThumbnailGeneration mediaFiles s =
     startThumbnailGeneration
       (foldl mark_pending
          (s\<lparr>thumbnailCache := Map.empty, thumbnailLoadingStates := Map.empty,
             thumbnailGenerationQueue := [], forceUpdate := 0\<rparr>)
          mediaFiles)"

text \<open>
  \<open>getThumbnail\<close> up to its await: \<open>Some\<close> payload when it returns at the cache test,
  \<open>None\<close> when it awaits the backend.
\<close>

definition getThumbnail :: "string \<Rightarrow> thumbs \<Rightarrow> string option \<times> thumbs" where
  "getThumbnail filePath s =
     (if cached s filePath then (thumbnailCache s filePath, s)
      else (None, s\<lparr>tasks := tasks s @ [GetInvoke filePath],
                     invocations := invocations s @ [filePath]\<rparr>))"

text \<open>The rest of \<open>getThumbnail\<close>: the string it returns, and the state.\<close>

definition getThumbnail_settled :: "string \<Rightarrow> reply \<Rightarrow> thumbs \<Rightarrow> string \<times> thumbs" where
  "getThumbnail_settled filePath r s =
     (case r of
        Resolved thumbnail \<Rightarrow>
          (thumbnail, s\<lparr>thumbnailCache := (thumbnailCache s)(filePath \<mapsto> thumbnail)\<rparr>)
      | Rejected err \<Rightarrow> ([], s))"

subsection \<open>Events\<close>

text \<open>
  \<open>Scan files\<close>: \<open>loadMediaFiles\<close> has received the list of a scan and calls
  \<open>initializeThumbnailGeneration\<close>. \<open>Request p\<close>: a call of \<open>getThumbnail(p)\<close>.
  \<open>Settle i r\<close>: the backend settles the promise that task \<open>i\<close> awaits. \<open>Timer i\<close>: the
  timer of task \<open>i\<close> fires. An event that names no task of the right kind cannot happen
  (\<open>None\<close>).
\<close>

datatype event = Scan "MediaFile list" | Request string | Settle nat reply | Timer nat

definition remove_task :: "nat \<Rightarrow> task list \<Rightarrow> task list" where
  "remove_task i ts = take i ts @ drop (Suc i) ts"

definition step :: "thumbs \<Rightarrow> event \<Rightarrow> thumbs option" where
  "step s e =
     (case e of
        Scan mediaFiles \<Rightarrow> Some (initializeThumbnailGeneration mediaFiles s)
      | Request filePath \<Rightarrow> Some (snd (getThumbnail filePath s))
      | Settle i r \<Rightarrow>
          (if i < length (tasks s) then
             (case tasks s ! i of
                GenInvoke filePath \<Rightarrow>
                  Some ((generateSingleThumbnail_settled filePath r s)
                          \<lparr>tasks := (tasks s)[i := NextTimer]\<rparr>)
              | GetInvoke filePath \<Rightarrow>
                  Some ((snd (getThumbnail_settled filePath r s))
                          \<lparr>tasks := remove_task i (tasks s)\<rparr>)
              | NextTimer \<Rightarrow> None)
           else None)
      | Timer i \<Rightarrow>
          (if i < length (tasks s) \<and> tasks s ! i = NextTimer
           then Some (processNextThumbnail (s\<lparr>tasks := remove_task i (tasks s)\<rparr>))
           else None))"

fun run :: "thumbs \<Rightarrow> event list \<Rightarrow> thumbs option" where
  "run s [] = Some s"
| "run s (e # es) = (case step s e of None \<Rightarrow> None | Some s' \<Rightarrow> run s' es)"

text \<open>The component as it is mounted.\<close>

definition initial :: thumbs where
  "initial = \<lparr>thumbnailCache = Map.empty, thumbnailLoadingStates = Map.empty,
     thumbnailGenerationQueue = [], isGeneratingThumbnails = False, forceUpdate = 0,
     tasks = [], invocations = []\<rparr>"

section \<open>The backend commands\<close>

text \<open>
  The view calls the backend through \<open>invoke\<close>: \<open>check_files_exist_in_destination\<close> and
  \<open>import_selected_files\<close> among others. The backend is the Rust crate of \<open>src-tauri\<close>, of
  which the repository sources at hand hold the manifest only; the two commands are
  modelled from the specification, sections 4.3 and 4.5.
\<close>

subsection \<open>Duplicate check\<close>

text \<open>A candidate of the duplicate check: a source path and the size of the file.\<close>

record candidate =
  cand_path :: string
  cand_size :: nat

text \<open>An entry of a directory: its name, its size, and for a directory what it holds.\<close>

datatype dir_entry = Entry (entry_name: string) (entry_size: nat) (children: "dir_entry list")

text \<open>The name of the file at a path: what follows the last separator.\<close>

definition file_name :: "string \<Rightarrow> string" where
  "file_name p = rev (takeWhile (\<lambda>c. c \<noteq> CHR ''/'') (rev p))"

text \<open>
  Modelled from the spec: the search of \<open>check_existing\<close> for one candidate, whose code
  (the backend command \<open>check_files_exist_in_destination\<close>) is not in the sources. "The
  destination directory is searched (non-recursive, top level only) for an entry whose
  name matches exactly and whose size matches exactly; if found, the candidate is marked
  existing."
\<close>

definition exists_in :: "dir_entry list \<Rightarrow> candidate \<Rightarrow> bool" where
  "exists_in destination_dir c =
     list_ex (\<lambda>e. entry_name e = file_name (cand_path c) \<and> entry_size e = cand_size c)
       destination_dir"

text \<open>
  Modelled from the spec: \<open>check_existing(candidates, destination_dir)\<close>, the backend
  command \<open>check_files_exist_in_destination\<close>, not in the sources. It returns a "sequence
  of boolean, same length and order as candidates".
\<close>

definition check_existing :: "candidate list \<Rightarrow> dir_entry list \<Rightarrow> bool list" where
  "check_existing candidates destination_dir = map (exists_in destination_dir) candidates"

subsection \<open>Transfer\<close>

text \<open>
  The outcome of one file, \<open>copied\<close>, \<open>skipped-duplicate\<close> or \<open>failed(reason)\<close>, and what
  the copy of a file can meet: a failure of that file (permission denied, source
  unreadable) or an unrecoverable failure of the destination (directory deleted
  mid-transfer, disk full).
\<close>

datatype outcome = Copied | SkippedDuplicate | Failed string

datatype copy_fault = FileFault string | DestinationFault string

text \<open>
  The sources as the pipeline meets them: for a path, the fault its copy runs into, or the
  content of the file. The destination directory: the names of its files with their
  contents.
\<close>

type_synonym source = "string \<Rightarrow> copy_fault + string"

type_synonym directory = "(string \<times> string) list"

text \<open>The destination as the duplicate check sees it.\<close>

definition listing :: "directory \<Rightarrow> dir_entry list" where
  "listing dest = map (\<lambda>(n, content). Entry n (length content) []) dest"

text \<open>Decimal digits of a number, and a name with a numeric suffix before its extension.\<close>

fun digits :: "nat \<Rightarrow> string" where
  "digits n =
     (if n < 10 then [char_of (48 + n)]
      else digits (n div 10) @ [char_of (48 + n mod 10)])"

declare digits.simps [simp del]

text \<open>The number a string of decimal digits stands for.\<close>

definition digits_value :: "string \<Rightarrow> nat" where
  "digits_value s = foldl (\<lambda>a c. 10 * a + (of_char c - 48)) 0 s"

definition extension_of :: "string \<Rightarrow> string" where
  "extension_of n =
     (if CHR ''.'' \<in> set n then CHR ''.'' # rev (takeWhile (\<lambda>c. c \<noteq> CHR ''.'') (rev n)) else [])"

definition suffixed :: "string \<Rightarrow> nat \<Rightarrow> string" where
  "suffixed n k =
     take (length n - length (extension_of n)) n @ ''_'' @ digits k @ extension_of n"

text \<open>
  Modelled from the spec: the choice of "a disambiguated name (e.g. a numeric suffix)",
  part of the transfer pipeline, not in the sources. The first of \<open>name_1\<close>, \<open>name_2\<close>, ...
  that the destination does not hold; a directory of \<open>n\<close> entries is searched up to
  suffix \<open>n + 1\<close>.
\<close>

definition disambiguate :: "directory \<Rightarrow> string \<Rightarrow> string option" where
  "disambiguate dest n =
     map_option (suffixed n)
       (find (\<lambda>k. suffixed n k \<notin> set (map fst dest)) [1..<length dest + 2])"

text \<open>
  Modelled from the spec: the copy of one file by the transfer pipeline (the backend
  command \<open>import_selected_files\<close>, not in the sources). A destination failure aborts
  (\<open>Inl\<close>); a failure of the file is recorded as \<open>failed(reason)\<close> and leaves the
  destination as it is. A file that the destination holds under the same name and size,
  which the duplicate check flags, is skipped as \<open>skipped-duplicate\<close>; on another name
  collision the file is "copied under a disambiguated name rather than overwritten";
  otherwise it is copied under its name.
\<close>

definition transfer_file :: "source \<Rightarrow> directory \<Rightarrow> string \<Rightarrow> string + (outcome \<times> directory)" where
  "transfer_file src dest p =
     (case src p of
        Inl (DestinationFault reason) \<Rightarrow> Inl reason
      | Inl (FileFault reason) \<Rightarrow> Inr (Failed reason, dest)
      | Inr content \<Rightarrow>
          if exists_in (listing dest) \<lparr>cand_path = p, cand_size = length content\<rparr>
          then Inr (SkippedDuplicate, dest)
          else if file_name p \<in> set (map fst dest)
          then (case disambiguate dest (file_name p) of
                  Some n' \<Rightarrow> Inr (Copied, dest @ [(n', content)])
                | None \<Rightarrow> Inr (Failed ''no free name'', dest))
          else Inr (Copied, dest @ [(file_name p, content)]))"

text \<open>
  Modelled from the spec: the loop of the transfer pipeline, not in the sources. "Files
  are copied in the given order, one at a time"; after a failure of one file the pipeline
  "continues to the next file rather than aborting the whole task".
\<close>

fun transfer_files :: "source \<Rightarrow> directory \<Rightarrow> string list \<Rightarrow> string + (outcome list \<times> directory)" where
  "transfer_files src dest [] = Inr ([], dest)"
| "transfer_files src dest (p # ps) =
     (case transfer_file src dest p of
        Inl reason \<Rightarrow> Inl reason
      | Inr (out, dest') \<Rightarrow>
          (case transfer_files src dest' ps of
             Inl reason \<Rightarrow> Inl reason
           | Inr (outs, dest'') \<Rightarrow> Inr (out # outs, dest'')))"

definition is_failed :: "outcome \<Rightarrow> bool" where
  "is_failed out = (case out of Failed reason \<Rightarrow> True | _ \<Rightarrow> False)"

datatype transfer_error = DestinationError string | AllFilesFailed "outcome list"

record transfer_result =
  outcomes :: "outcome list"
  copied_count :: nat
  skipped_count :: nat
  failed_count :: nat

text \<open>
  Modelled from the spec: \<open>transfer(source_paths, destination_dir)\<close>, the backend command
  \<open>import_selected_files\<close>, not in the sources. "The overall transfer fails only if every
  file fails, or on an unrecoverable destination-level error"; "the final result is an
  ordered list of per-file outcomes plus aggregate counts". The new destination is
  returned with the result.
\<close>

definition transfer :: "source \<Rightarrow> string list \<Rightarrow> directory \<Rightarrow> transfer_error + (transfer_result \<times> directory)" where
  "transfer src source_paths destination_dir =
     (case transfer_files src destination_dir source_paths of
        Inl reason \<Rightarrow> Inl (DestinationError reason)
      | Inr (outs, dest') \<Rightarrow>
          if outs \<noteq> [] \<and> list_all is_failed outs then Inl (AllFilesFailed outs)
          else Inr (\<lparr>outcomes = outs,
                     copied_count = count_list outs Copied,
                     skipped_count = count_list outs SkippedDuplicate,
                     failed_count = length (filter is_failed outs)\<rparr>, dest'))"

text \<open>Sources for the examples: three files of which the second cannot be read.\<close>

definition three_sources :: source where
  "three_sources p =
     (if p = ''/sd/one.jpg'' then Inr ''11111''
      else if p = ''/sd/two.jpg'' then Inl (FileFault ''permission denied'')
      else if p = ''/sd/three.jpg'' then Inr ''333''
      else Inl (FileFault ''no such file''))"

definition photo_source :: source where
  "photo_source p =
     (if p = ''/sd/photo.jpg'' then Inr ''new photo''
      else Inl (FileFault ''no such file''))"

subsection \<open>Notions used to state the properties\<close>

text \<open>A task of the generation chain, as opposed to a suspended \<open>getThumbnail\<close>.\<close>

definition is_chain_task :: "task \<Rightarrow> bool" where
  "is_chain_task t = (case t of GetInvoke p \<Rightarrow> False | _ \<Rightarrow> True)"

text \<open>A generation of the queue that awaits the backend.\<close>

definition is_generation :: "task \<Rightarrow> bool" where
  "is_generation t = (case t of GenInvoke p \<Rightarrow> True | _ \<Rightarrow> False)"

definition chain_count :: "task list \<Rightarrow> nat" where
  "chain_count ts = length (filter is_chain_task ts)"

text \<open>The paths a scan puts on the queue.\<close>

definition queued_paths :: "MediaFile list \<Rightarrow> string list" where
  "queued_paths mediaFiles = map path (filter (\<lambda>file. is_image file \<or> is_video file) mediaFiles)"

text \<open>
  The state in which \<open>initializeThumbnailGeneration\<close> calls \<open>startThumbnailGeneration\<close>:
  cache and states cleared, every queued path pending.
\<close>

definition cleared :: "MediaFile list \<Rightarrow> thumbs \<Rightarrow> thumbs" where
  "cleared fs s =
     s\<lparr>thumbnailCache := Map.empty,
       thumbnailLoadingStates := (\<lambda>q. if q \<in> set (queued_paths fs) then Some Pending else None),
       thumbnailGenerationQueue := queued_paths fs, forceUpdate := 0\<rparr>"

text \<open>The flag \<open>isGeneratingThumbnails\<close> is set exactly while one task of the chain exists.\<close>

definition one_chain :: "thumbs \<Rightarrow> bool" where
  "one_chain s = (chain_count (tasks s) = (if isGeneratingThumbnails s then 1 else 0))"

text \<open>The moves of the state machine \<open>pending \<rightarrow> loading \<rightarrow> loaded | error\<close>, or none.\<close>

definition move :: "thumb_state \<Rightarrow> thumb_state \<Rightarrow> bool" where
  "move a b = (a = b \<or> (a = Pending \<and> b = Loading) \<or> (a = Loading \<and> (b = Loaded \<or> b = Error)))"

definition is_scan :: "event \<Rightarrow> bool" where
  "is_scan e = (case e of Scan fs \<Rightarrow> True | _ \<Rightarrow> False)"

text \<open>
  An orderly event: a scan lists every path once, and its list arrives while no generation
  of the queue awaits the backend. Other events are always orderly.
\<close>

definition orderly :: "thumbs \<Rightarrow> event \<Rightarrow> bool" where
  "orderly s e =
     (case e of
        Scan fs \<Rightarrow> distinct (queued_paths fs) \<and> filter is_generation (tasks s) = []
      | _ \<Rightarrow> True)"

fun orderly_run :: "thumbs \<Rightarrow> event list \<Rightarrow> bool" where
  "orderly_run s [] = True"
| "orderly_run s (e # es) =
     (orderly s e \<and> (case step s e of None \<Rightarrow> False | Some s' \<Rightarrow> orderly_run s' es))"

text \<open>
  The queue holds pending paths, each once, and a path whose generation awaits the
  backend is loading and no longer queued.
\<close>

definition queue_sound :: "thumbs \<Rightarrow> bool" where
  "queue_sound s =
     (distinct (thumbnailGenerationQueue s) \<and>
      list_all (\<lambda>q. getThumbnailState s q = Pending) (thumbnailGenerationQueue s) \<and>
      list_all (\<lambda>t. case t of
                  GenInvoke q \<Rightarrow> getThumbnailState s q = Loading \<and> q \<notin> set (thumbnailGenerationQueue s)
                | _ \<Rightarrow> True) (tasks s))"


text \<open>The state of a path after a run from the mounted component.\<close>

definition state_after :: "event list \<Rightarrow> string \<Rightarrow> thumb_state option" where
  "state_after evs p = map_option (\<lambda>s. getThumbnailState s p) (run initial evs)"



text \<open>Two files of a scan, for the examples.\<close>

definition photo :: MediaFile where
  "photo = \<lparr>name = ''a.jpg'', path = ''/sd/a.jpg'', size_bytes = 2048000, modified = 1700000000,
     extension = ''jpg'', is_image = True, is_video = False\<rparr>"

definition clip :: MediaFile where
  "clip = \<lparr>name = ''b.mp4'', path = ''/sd/b.mp4'', size_bytes = 90000000, modified = 1700000100,
     extension = ''mp4'', is_image = False, is_video = True\<rparr>"


section \<open>Properties of the progress listener\<close>

subsection \<open>Splitting at the separator\<close>

lemma split_no_sep: "c \<notin> set xs \<Longrightarrow> split xs c = [xs]"
proof -
  assume a: "c \<notin> set xs"
  then have t: "takeWhile (\<lambda>x. x \<noteq> c) xs = xs"
    by (auto simp: takeWhile_eq_all_conv)
  from a have d: "dropWhile (\<lambda>x. x \<noteq> c) xs = []"
    by (auto simp: dropWhile_eq_Nil_conv)
  show ?thesis by (subst split.simps) (simp add: t d)
qed

lemma split_sep: "c \<notin> set xs \<Longrightarrow> split (xs @ c # ys) c = xs # split ys c"
proof -
  assume a: "c \<notin> set xs"
  then have t: "takeWhile (\<lambda>x. x \<noteq> c) (xs @ c # ys) = xs"
    by (subst takeWhile_append2) auto
  from a have d: "dropWhile (\<lambda>x. x \<noteq> c) (xs @ c # ys) = c # ys"
    by (subst dropWhile_append2) auto
  show ?thesis by (subst split.simps) (simp add: t d)
qed

lemma length_split: "length (split s c) = Suc (count_list s c)"
proof (induction s c rule: split.induct)
  case (1 s c)
  show ?case
  proof (cases "dropWhile (\<lambda>x. x \<noteq> c) s")
    case Nil
    then have "c \<notin> set s" by (auto simp: dropWhile_eq_Nil_conv)
    then show ?thesis by (simp add: split_no_sep)
  next
    case (Cons x rest)
    then have x: "x = c" using hd_dropWhile [of "\<lambda>x. x \<noteq> c" s] by auto
    have s: "s = takeWhile (\<lambda>x. x \<noteq> c) s @ c # rest"
      using takeWhile_dropWhile_id [of "\<lambda>x. x \<noteq> c" s] Cons x by simp
    have n: "c \<notin> set (takeWhile (\<lambda>x. x \<noteq> c) s)" by (auto dest: set_takeWhileD)
    have "count_list s c = Suc (count_list rest c)"
      by (subst s) (use n in \<open>simp add: count_list_0_iff\<close>)
    moreover have "split s c = takeWhile (\<lambda>x. x \<noteq> c) s # split rest c"
      by (subst split.simps) (simp add: Cons)
    ultimately show ?thesis using "1.IH" [OF Cons] by simp
  qed
qed

lemma two_seps:
  assumes "count_list r c = Suc 0"
  shows "\<exists>a b. r = a @ c # b \<and> c \<notin> set a \<and> c \<notin> set b"
proof -
  from assms have "c \<in> set r" by (metis count_list_0_iff Zero_not_Suc)
  then obtain a b where r: "r = a @ c # b" and a: "c \<notin> set a" by (meson split_list_first)
  with assms have "count_list b c = 0" by (simp add: count_list_0_iff)
  then have "c \<notin> set b" by (simp add: count_list_0_iff)
  with r a show ?thesis by blast
qed

lemma split_three:
  assumes "c \<notin> set p" "c \<notin> set a" "c \<notin> set b"
  shows "split (p @ c # a @ c # b) c = [p, a, b]"
  using assms by (simp add: split_sep split_no_sep)

lemma starts_bytes: "startsWith (''PROGRESS_BYTES:'' @ r) ''PROGRESS_BYTES:''"
  by (simp add: startsWith_def)

lemma starts_count: "startsWith (''PROGRESS:'' @ r) ''PROGRESS:''"
  by (simp add: startsWith_def)

lemma not_bytes_count: "\<not> startsWith (''PROGRESS:'' @ r) ''PROGRESS_BYTES:''"
  by (simp add: startsWith_def)

lemma startsWithD: "startsWith m p \<Longrightarrow> \<exists>r. m = p @ r"
  unfolding startsWith_def by (metis append_take_drop_id)

lemma listener_bytes:
  assumes "CHR '':'' \<notin> set a" "CHR '':'' \<notin> set b"
  shows "import_progress_listener (''PROGRESS_BYTES:'' @ a @ '':'' @ b) v =
    v\<lparr>progressPercent :=
        (if js_gt_zero (parseInt b) then js_mul (js_div (parseInt a) (parseInt b)) (Fin 100)
         else Fin 0)\<rparr>"
proof -
  have "split (''PROGRESS_BYTES'' @ CHR '':'' # a @ CHR '':'' # b) CHR '':'' = [''PROGRESS_BYTES'', a, b]"
    by (rule split_three) (use assms in simp_all)
  then have sp: "split (''PROGRESS_BYTES:'' @ a @ '':'' @ b) CHR '':'' = [''PROGRESS_BYTES'', a, b]"
    by simp
  show ?thesis
    unfolding import_progress_listener_def
    by (simp only: starts_bytes sp if_True Let_def) simp
qed

lemma listener_count:
  assumes "CHR '':'' \<notin> set a" "CHR '':'' \<notin> set b"
  shows "import_progress_listener (''PROGRESS:'' @ a @ '':'' @ b) v =
    v\<lparr>progressPercent := js_mul (js_div (parseInt a) (parseInt b)) (Fin 100)\<rparr>"
proof -
  have "split (''PROGRESS'' @ CHR '':'' # a @ CHR '':'' # b) CHR '':'' = [''PROGRESS'', a, b]"
    by (rule split_three) (use assms in simp_all)
  then have sp: "split (''PROGRESS:'' @ a @ '':'' @ b) CHR '':'' = [''PROGRESS'', a, b]"
    by simp
  show ?thesis
    unfolding import_progress_listener_def
    by (simp only: starts_count not_bytes_count sp if_True if_False Let_def) simp
qed

lemma listener_status:
  assumes "\<not> startsWith m ''PROGRESS_BYTES:''" "\<not> startsWith m ''PROGRESS:''"
  shows "import_progress_listener m v = v\<lparr>progress := m\<rparr>"
  using assms by (simp add: import_progress_listener_def)

lemma listener_dropped:
  assumes "startsWith m ''PROGRESS_BYTES:'' \<or> startsWith m ''PROGRESS:''"
    and "count_list m CHR '':'' \<noteq> 2"
  shows "import_progress_listener m v = v"
  using assms by (auto simp add: import_progress_listener_def length_split Let_def)

lemma prefixed_form:
  assumes "m = p @ CHR '':'' # r" "CHR '':'' \<notin> set p" "count_list m CHR '':'' = 2"
  shows "\<exists>a b. m = p @ CHR '':'' # a @ CHR '':'' # b \<and> CHR '':'' \<notin> set a \<and> CHR '':'' \<notin> set b"
proof -
  from assms have "count_list r CHR '':'' = Suc 0" by (simp add: count_list_0_iff)
  from two_seps [OF this] assms(1) show ?thesis by auto
qed

subsection \<open>Rounding to a double\<close>

text \<open>
  The binary exponent brackets a positive number between two powers of two, and the rounding
  takes a number to the nearest multiple of its quantum, with a mantissa of at most 53 bits.
\<close>

lemma pow2_pos: "0 < pow2 k"
  by (simp add: pow2_def)

lemma pow2_nonneg: "0 \<le> k \<Longrightarrow> pow2 k = 2 ^ nat k"
  by (simp add: pow2_def)

lemma pow2_add1: "pow2 (k + 1) = 2 * pow2 k"
proof (cases "0 \<le> k")
  case True
  then have "nat (k + 1) = Suc (nat k)" by simp
  with True show ?thesis by (simp add: pow2_def)
next
  case False
  then have "nat (- k) = Suc (nat (- (k + 1)))" by simp
  with False show ?thesis by (cases "k = - 1") (simp_all add: pow2_def)
qed

lemma pow2_neg: "pow2 (- k) = 1 / pow2 k"
  by (cases "k = 0") (auto simp: pow2_def)

lemma pow2_mono: "j \<le> k \<Longrightarrow> pow2 j \<le> pow2 k"
proof -
  have "pow2 j \<le> pow2 (j + int n)" for n
  proof (induction n)
    case 0
    show ?case by simp
  next
    case (Suc n)
    have "j + int (Suc n) = j + int n + 1" by simp
    then have "pow2 (j + int (Suc n)) = 2 * pow2 (j + int n)"
      using pow2_add1 [of "j + int n"] by (simp only:)
    with Suc pow2_pos [of "j + int n"] show ?case by simp
  qed
  from this [of "nat (k - j)"] show "j \<le> k \<Longrightarrow> pow2 j \<le> pow2 k" by simp
qed

lemma log2_floor_bracket:
  "1 \<le> n \<Longrightarrow> 0 \<le> log2_floor n \<and> 2 ^ nat (log2_floor n) \<le> n \<and> n < 2 * 2 ^ nat (log2_floor n)"
proof (induction n rule: log2_floor.induct)
  case (1 n)
  show ?case
  proof (cases "n < 2")
    case True
    with "1.prems" have "n = 1" by simp
    then show ?thesis by (simp add: log2_floor.simps)
  next
    case False
    then have h: "1 \<le> n div 2" by simp
    let ?l = "log2_floor (n div 2)"
    from "1.IH" [OF False h]
    have l: "0 \<le> ?l" and lo: "2 ^ nat ?l \<le> n div 2" and hi: "n div 2 < 2 * 2 ^ nat ?l"
      by simp_all
    have e: "log2_floor n = 1 + ?l" using False by (subst log2_floor.simps) simp
    have n: "nat (1 + ?l) = Suc (nat ?l)" using l by simp
    have "2 * (n div 2) \<le> n" "n < 2 * (n div 2) + 2" by simp_all
    with lo hi l show ?thesis unfolding e n by simp
  qed
qed

lemma binary_exponent_bracket:
  assumes "0 < x"
  shows "pow2 (binary_exponent x) \<le> x \<and> x < pow2 (binary_exponent x + 1)"
proof (cases "1 \<le> x")
  case True
  then have f: "1 \<le> \<lfloor>x\<rfloor>" by simp
  let ?l = "log2_floor \<lfloor>x\<rfloor>"
  from log2_floor_bracket [OF f]
  have l: "0 \<le> ?l" and lo: "2 ^ nat ?l \<le> \<lfloor>x\<rfloor>" and hi: "\<lfloor>x\<rfloor> < 2 * 2 ^ nat ?l"
    by simp_all
  from lo have "(of_int (2 ^ nat ?l) :: rat) \<le> x" by (simp only: le_floor_iff)
  then have a: "pow2 ?l \<le> x" using l by (simp add: pow2_nonneg)
  from hi have "x < of_int (2 * 2 ^ nat ?l)" by (simp only: floor_less_iff)
  then have "x < 2 * 2 ^ nat ?l" by simp
  then have b: "x < pow2 (?l + 1)" using l by (simp add: pow2_add1 pow2_nonneg)
  from a b True show ?thesis by (simp add: binary_exponent_def)
next
  case False
  with assms have y: "1 \<le> 1 / x" by simp
  then have f: "1 \<le> \<lfloor>1 / x\<rfloor>" by simp
  let ?g = "log2_floor \<lfloor>1 / x\<rfloor>"
  from log2_floor_bracket [OF f]
  have g: "0 \<le> ?g" and lo: "2 ^ nat ?g \<le> \<lfloor>1 / x\<rfloor>" and hi: "\<lfloor>1 / x\<rfloor> < 2 * 2 ^ nat ?g"
    by simp_all
  from lo have "(of_int (2 ^ nat ?g) :: rat) \<le> 1 / x" by (simp only: le_floor_iff)
  then have "pow2 ?g \<le> 1 / x" using g by (simp add: pow2_nonneg)
  then have a: "x \<le> pow2 (- ?g)"
    using assms pow2_pos [of ?g] by (simp add: pow2_neg field_simps)
  from hi have "1 / x < of_int (2 * 2 ^ nat ?g)" by (simp only: floor_less_iff)
  then have "1 / x < 2 * 2 ^ nat ?g" by simp
  then have "1 / x < pow2 (?g + 1)" using g by (simp add: pow2_add1 pow2_nonneg)
  then have "1 / pow2 (?g + 1) < x"
    using assms pow2_pos [of "?g + 1"] by (simp add: field_simps)
  moreover have "pow2 (- (?g + 1)) = 1 / pow2 (?g + 1)" by (rule pow2_neg)
  moreover have "- (?g + 1) = - ?g - 1" by simp
  ultimately have b: "pow2 (- ?g - 1) < x" by (simp only:)
  show ?thesis
  proof (cases "pow2 (- ?g) \<le> x")
    case True
    with a have "x = pow2 (- ?g)" by simp
    moreover have "pow2 (- ?g) < pow2 (- ?g + 1)"
      using pow2_pos [of "- ?g"] by (simp only: pow2_add1)
    ultimately show ?thesis using False True by (simp add: binary_exponent_def Let_def)
  next
    case n: False
    then have "x < pow2 (- ?g)" by simp
    moreover have "pow2 (- ?g - 1 + 1) = pow2 (- ?g)" by simp
    ultimately show ?thesis using False n b by (simp add: binary_exponent_def Let_def)
  qed
qed

lemma round_half_even_nearest: "\<bar>of_int (round_half_even m) - m\<bar> \<le> 1 / 2"
proof -
  define d where "d = m - of_int \<lfloor>m\<rfloor>"
  have d: "0 \<le> d" "d < 1" unfolding d_def by linarith+
  have m: "m = of_int \<lfloor>m\<rfloor> + d" by (simp add: d_def)
  have "round_half_even m = \<lfloor>m\<rfloor> \<and> d \<le> 1 / 2 \<or> round_half_even m = \<lfloor>m\<rfloor> + 1 \<and> 1 / 2 \<le> d"
    unfolding round_half_even_def Let_def d_def [symmetric] by auto
  then show ?thesis
  proof
    assume "round_half_even m = \<lfloor>m\<rfloor> \<and> d \<le> 1 / 2"
    then show ?thesis using d by (subst (2) m) (simp add: abs_if)
  next
    assume "round_half_even m = \<lfloor>m\<rfloor> + 1 \<and> 1 / 2 \<le> d"
    then show ?thesis using d by (subst (2) m) (simp add: abs_if)
  qed
qed

lemma round_half_even_mono_floor: "\<lfloor>m\<rfloor> \<le> round_half_even m \<and> round_half_even m \<le> \<lfloor>m\<rfloor> + 1"
  by (auto simp: round_half_even_def Let_def)

text \<open>The rounded magnitude is a multiple of the quantum, at most half a quantum away.\<close>

lemma round_magnitude_nearest:
  "\<bar>round_magnitude a - a\<bar> \<le> quantum a / 2"
proof -
  have q: "0 < quantum a" by (simp add: quantum_def pow2_pos)
  have "\<bar>of_int (round_half_even (a / quantum a)) - a / quantum a\<bar> * quantum a \<le> 1 / 2 * quantum a"
    using round_half_even_nearest [of "a / quantum a"] q by (simp only: mult_right_mono less_imp_le)
  moreover have "\<bar>of_int (round_half_even (a / quantum a)) - a / quantum a\<bar> * quantum a
      = \<bar>round_magnitude a - a\<bar>"
  proof -
    have "\<bar>of_int (round_half_even (a / quantum a)) - a / quantum a\<bar> * \<bar>quantum a\<bar>
        = \<bar>(of_int (round_half_even (a / quantum a)) - a / quantum a) * quantum a\<bar>"
      by (simp only: abs_mult)
    also have "(of_int (round_half_even (a / quantum a)) - a / quantum a) * quantum a
        = round_magnitude a - a"
      using q by (simp add: round_magnitude_def left_diff_distrib)
    finally show ?thesis using q by simp
  qed
  ultimately show ?thesis by simp
qed

text \<open>Its mantissa has at most 53 bits.\<close>

lemma round_magnitude_mantissa:
  assumes "0 < a"
  shows "0 \<le> round_half_even (a / quantum a) \<and> round_half_even (a / quantum a) \<le> 2 ^ 53"
proof -
  let ?e = "binary_exponent a"
  have q: "0 < quantum a" by (simp add: quantum_def pow2_pos)
  have "pow2 (?e - 52) \<le> quantum a" unfolding quantum_def by (rule pow2_mono) simp
  moreover have "pow2 (?e + 1) = 2 ^ 53 * pow2 (?e - 52)"
  proof -
    have "pow2 (?e - 52 + int n) = 2 ^ n * pow2 (?e - 52)" for n
    proof (induction n)
      case 0
      show ?case by simp
    next
      case (Suc n)
      have "?e - 52 + int (Suc n) = ?e - 52 + int n + 1" by simp
      then have "pow2 (?e - 52 + int (Suc n)) = 2 * pow2 (?e - 52 + int n)"
        using pow2_add1 [of "?e - 52 + int n"] by (simp only:)
      with Suc show ?case by simp
    qed
    from this [of 53] show ?thesis by (simp add: add.commute)
  qed
  ultimately have "a < 2 ^ 53 * quantum a"
    using binary_exponent_bracket [OF assms] by (simp add: mult_left_mono order_less_le_trans)
  then have "a / quantum a < 2 ^ 53" using q by (simp add: field_simps)
  then have "\<lfloor>a / quantum a\<rfloor> < 2 ^ 53" by (simp add: floor_less_iff)
  moreover have "0 \<le> \<lfloor>a / quantum a\<rfloor>" using assms q by simp
  ultimately show ?thesis using round_half_even_mono_floor [of "a / quantum a"] by linarith
qed

subsection \<open>Numbers at concrete values\<close>

lemma floor_rat_numeral:
  "\<lfloor>numeral a / numeral b :: rat\<rfloor> = numeral a div numeral b"
  "\<lfloor>1 / numeral b :: rat\<rfloor> = 1 div numeral b"
  using floor_divide_of_int_eq [of "numeral a" "numeral b", where ?'a = rat]
    floor_divide_of_int_eq [of 1 "numeral b", where ?'a = rat]
  by simp_all

lemmas double_eval =
  to_double_def round_magnitude_def quantum_def binary_exponent_def round_half_even_def
  pow2_def log2_floor.simps Let_def signed_inf_def signed_zero_def floor_rat_numeral

lemmas number_eval =
  js_div_def js_mul_def is_neg_def is_inf_def is_zero_def finite_value_def

lemmas parseInt_eval =
  parseInt_def is_white_space_def is_radix_digit_def digit_of_def math_int_def digit_value_def

text \<open>One third and one tenth are not doubles; a tie goes to the even mantissa.\<close>

lemma to_double_third: "to_double (1 / 3) = Fin (6004799503160661 / 18014398509481984)"
  by (simp add: double_eval)

lemma to_double_tenth: "to_double (1 / 10) = Fin (3602879701896397 / 36028797018963968)"
  by (simp add: double_eval)

lemma to_double_tie: "to_double 9007199254740993 = Fin 9007199254740992"
  by (simp add: double_eval)

lemma to_double_tie_up: "to_double 9007199254740995 = Fin 9007199254740996"
  by (simp add: double_eval)

lemma parseInt_512: "parseInt ''512'' = Fin 512"
  by (simp add: parseInt_eval double_eval)

lemma parseInt_2048: "parseInt ''2048'' = Fin 2048"
  by (simp add: parseInt_eval double_eval)

lemma parseInt_0: "parseInt ''0'' = Fin 0"
  by (simp add: parseInt_eval double_eval)

lemma parseInt_1: "parseInt ''1'' = Fin 1"
  by (simp add: parseInt_eval double_eval)

lemma parseInt_3: "parseInt ''3'' = Fin 3"
  by (simp add: parseInt_eval double_eval)

lemma parseInt_forms:
  "parseInt '' -12px'' = Fin (- 12)" "parseInt ''0x1F'' = Fin 31" "parseInt ''-0'' = NegZero"
  "parseInt ''px'' = NaN" "parseInt ''9007199254740993'' = Fin 9007199254740992"
  by (simp_all add: parseInt_eval double_eval)

lemma percent_512_2048: "js_mul (js_div (Fin 512) (Fin 2048)) (Fin 100) = Fin 25"
  by (simp add: number_eval double_eval)

lemma percent_1_3:
  "js_mul (js_div (Fin 1) (Fin 3)) (Fin 100) = Fin (2345624805922133 / 70368744177664)"
  by (simp add: number_eval double_eval)

lemma hundred_thirds: "js_div (Fin 100) (Fin 3) = Fin (4691249611844267 / 140737488355328)"
  by (simp add: number_eval double_eval)

subsection \<open>The listener on each message form\<close>

text \<open>
  Claim C3, as the code has it. A message \<open>PROGRESS_BYTES:a:b\<close> (no colon in \<open>a\<close> and
  \<open>b\<close>) sets the percentage from the byte counts and a message \<open>PROGRESS:a:b\<close> sets it
  from the file counts; neither touches the status line. A message that starts with
  neither prefix becomes the status line. A message that starts with one of the two
  prefixes but does not have exactly two colons changes nothing: it is not shown as a
  status line. Every message starting with a prefix and holding exactly two colons has
  one of the two structured forms, so the cases cover every string, and the listener,
  which reads \<open>parts[1]\<close> and \<open>parts[2]\<close> only when there are three parts, fails on none.
\<close>

theorem import_progress_listener_cases:
  "(CHR '':'' \<notin> set a \<and> CHR '':'' \<notin> set b \<longrightarrow>
      import_progress_listener (''PROGRESS_BYTES:'' @ a @ '':'' @ b) v =
        v\<lparr>progressPercent :=
            (if js_gt_zero (parseInt b) then js_mul (js_div (parseInt a) (parseInt b)) (Fin 100)
             else Fin 0)\<rparr> \<and>
      import_progress_listener (''PROGRESS:'' @ a @ '':'' @ b) v =
        v\<lparr>progressPercent := js_mul (js_div (parseInt a) (parseInt b)) (Fin 100)\<rparr>) \<and>
   (\<not> startsWith m ''PROGRESS_BYTES:'' \<and> \<not> startsWith m ''PROGRESS:'' \<longrightarrow>
      import_progress_listener m v = v\<lparr>progress := m\<rparr>) \<and>
   ((startsWith d ''PROGRESS_BYTES:'' \<or> startsWith d ''PROGRESS:'') \<and>
      count_list d CHR '':'' \<noteq> 2 \<longrightarrow>
      import_progress_listener d v = v) \<and>
   (startsWith w ''PROGRESS_BYTES:'' \<and> count_list w CHR '':'' = 2 \<longrightarrow>
      (\<exists>a b. w = ''PROGRESS_BYTES:'' @ a @ '':'' @ b \<and>
         CHR '':'' \<notin> set a \<and> CHR '':'' \<notin> set b)) \<and>
   (startsWith w ''PROGRESS:'' \<and> count_list w CHR '':'' = 2 \<longrightarrow>
      (\<exists>a b. w = ''PROGRESS:'' @ a @ '':'' @ b \<and>
         CHR '':'' \<notin> set a \<and> CHR '':'' \<notin> set b))"
proof (intro conjI impI)
  assume "CHR '':'' \<notin> set a \<and> CHR '':'' \<notin> set b"
  then show "import_progress_listener (''PROGRESS_BYTES:'' @ a @ '':'' @ b) v =
        v\<lparr>progressPercent :=
            (if js_gt_zero (parseInt b) then js_mul (js_div (parseInt a) (parseInt b)) (Fin 100)
             else Fin 0)\<rparr>"
    using listener_bytes [of a b v] by blast
next
  assume "CHR '':'' \<notin> set a \<and> CHR '':'' \<notin> set b"
  then show "import_progress_listener (''PROGRESS:'' @ a @ '':'' @ b) v =
        v\<lparr>progressPercent := js_mul (js_div (parseInt a) (parseInt b)) (Fin 100)\<rparr>"
    using listener_count [of a b v] by blast
next
  assume "\<not> startsWith m ''PROGRESS_BYTES:'' \<and> \<not> startsWith m ''PROGRESS:''"
  then show "import_progress_listener m v = v\<lparr>progress := m\<rparr>"
    by (simp add: listener_status)
next
  assume "(startsWith d ''PROGRESS_BYTES:'' \<or> startsWith d ''PROGRESS:'') \<and>
      count_list d CHR '':'' \<noteq> 2"
  then show "import_progress_listener d v = v"
    using listener_dropped [of d v] by blast
next
  assume h: "startsWith w ''PROGRESS_BYTES:'' \<and> count_list w CHR '':'' = 2"
  then obtain r where "w = ''PROGRESS_BYTES:'' @ r" using startsWithD by blast
  then have "w = ''PROGRESS_BYTES'' @ CHR '':'' # r" by simp
  from prefixed_form [OF this] h
  show "\<exists>a b. w = ''PROGRESS_BYTES:'' @ a @ '':'' @ b \<and>
         CHR '':'' \<notin> set a \<and> CHR '':'' \<notin> set b"
    by simp
next
  assume h: "startsWith w ''PROGRESS:'' \<and> count_list w CHR '':'' = 2"
  then obtain r where "w = ''PROGRESS:'' @ r" using startsWithD by blast
  then have "w = ''PROGRESS'' @ CHR '':'' # r" by simp
  from prefixed_form [OF this] h
  show "\<exists>a b. w = ''PROGRESS:'' @ a @ '':'' @ b \<and>
         CHR '':'' \<notin> set a \<and> CHR '':'' \<notin> set b"
    by simp
qed

theorem import_progress_listener_cases_witness:
  "import_progress_listener ''PROGRESS_BYTES:512:2048'' \<lparr>progress = ''scanning'', progressPercent = Fin 0\<rparr>
     = \<lparr>progress = ''scanning'', progressPercent = Fin 25\<rparr> \<and>
   import_progress_listener ''PROGRESS:512:2048'' \<lparr>progress = ''scanning'', progressPercent = Fin 0\<rparr>
     = \<lparr>progress = ''scanning'', progressPercent = Fin 25\<rparr> \<and>
   import_progress_listener ''Import complete: 3 files'' \<lparr>progress = ''scanning'', progressPercent = Fin 0\<rparr>
     = \<lparr>progress = ''Import complete: 3 files'', progressPercent = Fin 0\<rparr> \<and>
   import_progress_listener ''PROGRESS_BYTES:512'' \<lparr>progress = ''scanning'', progressPercent = Fin 0\<rparr>
     = \<lparr>progress = ''scanning'', progressPercent = Fin 0\<rparr> \<and>
   (\<exists>a b. ''PROGRESS_BYTES:512:2048'' = ''PROGRESS_BYTES:'' @ a @ '':'' @ b \<and>
      CHR '':'' \<notin> set a \<and> CHR '':'' \<notin> set b) \<and>
   (\<exists>a b. ''PROGRESS:512:2048'' = ''PROGRESS:'' @ a @ '':'' @ b \<and>
      CHR '':'' \<notin> set a \<and> CHR '':'' \<notin> set b)"
  using import_progress_listener_cases [of "''512''" "''2048''"
      "\<lparr>progress = ''scanning'', progressPercent = Fin 0\<rparr>"
      "''Import complete: 3 files''" "''PROGRESS_BYTES:512''" "''PROGRESS_BYTES:512:2048''"]
    import_progress_listener_cases [of "''512''" "''2048''"
      "\<lparr>progress = ''scanning'', progressPercent = Fin 0\<rparr>"
      "''Import complete: 3 files''" "''PROGRESS_BYTES:512''" "''PROGRESS:512:2048''"]
  by (simp add: startsWith_def parseInt_512 parseInt_2048 percent_512_2048 js_gt_zero_def)

text \<open>
  Claim C3 as the specification words it fails: a message that is not of a structured
  form is not always treated as a status line. The message \<open>PROGRESS:done\<close> starts
  with the file-count prefix and has two parts only; the listener leaves both variables
  as they were, so the text is not shown.
\<close>

theorem unrecognised_message_not_status:
  "import_progress_listener ''PROGRESS:done'' \<lparr>progress = ''scanning'', progressPercent = Fin 0\<rparr>
     = \<lparr>progress = ''scanning'', progressPercent = Fin 0\<rparr> \<and>
   progress (import_progress_listener ''PROGRESS:done''
       \<lparr>progress = ''scanning'', progressPercent = Fin 0\<rparr>) \<noteq> ''PROGRESS:done''"
  by (simp add: import_progress_listener_def startsWith_def split.simps)

text \<open>
  Claim C10. For a message \<open>PROGRESS_BYTES:bytesCopied:bytesTotal\<close>: when the parsed
  total is zero the percentage is set to 0 and no division takes place; when the parsed
  total is greater than zero the percentage is \<open>(copied / total) * 100\<close> in the arithmetic
  of doubles: for finite parsed values \<open>c\<close> and \<open>t\<close>, the quotient \<open>c / t\<close> rounded to a
  double \<open>q\<close>, and then \<open>q * 100\<close> rounded to a double (and 0 for \<open>c = 0\<close>).
\<close>

theorem progress_bytes_percent_guarded:
  assumes "CHR '':'' \<notin> set bytesCopied" and "CHR '':'' \<notin> set bytesTotal"
  shows "(is_zero (parseInt bytesTotal) \<longrightarrow>
            progressPercent (import_progress_listener
              (''PROGRESS_BYTES:'' @ bytesCopied @ '':'' @ bytesTotal) v) = Fin 0) \<and>
         (js_gt_zero (parseInt bytesTotal) \<longrightarrow>
            progressPercent (import_progress_listener
              (''PROGRESS_BYTES:'' @ bytesCopied @ '':'' @ bytesTotal) v) =
            js_mul (js_div (parseInt bytesCopied) (parseInt bytesTotal)) (Fin 100)) \<and>
         (parseInt bytesCopied = Fin c \<and> parseInt bytesTotal = Fin t \<and> 0 < t \<and>
          to_double (c / t) = Fin q \<and> q \<noteq> 0 \<longrightarrow>
            progressPercent (import_progress_listener
              (''PROGRESS_BYTES:'' @ bytesCopied @ '':'' @ bytesTotal) v) = to_double (q * 100)) \<and>
         (parseInt bytesCopied = Fin 0 \<and> parseInt bytesTotal = Fin t \<and> 0 < t \<longrightarrow>
            progressPercent (import_progress_listener
              (''PROGRESS_BYTES:'' @ bytesCopied @ '':'' @ bytesTotal) v) = Fin 0)"
proof -
  let ?v = "import_progress_listener (''PROGRESS_BYTES:'' @ bytesCopied @ '':'' @ bytesTotal) v"
  have p: "progressPercent ?v =
      (if js_gt_zero (parseInt bytesTotal)
       then js_mul (js_div (parseInt bytesCopied) (parseInt bytesTotal)) (Fin 100) else Fin 0)"
    by (subst listener_bytes [OF assms]) simp
  have z: "is_zero (parseInt bytesTotal) \<Longrightarrow> \<not> js_gt_zero (parseInt bytesTotal)"
    by (cases "parseInt bytesTotal") (simp_all add: is_zero_def js_gt_zero_def)
  have f: "js_mul (js_div (Fin c) (Fin t)) (Fin 100) = to_double (q * 100)"
    if "0 < t" "to_double (c / t) = Fin q" "q \<noteq> 0"
  proof -
    from that(2,3) have "c \<noteq> 0" by (auto simp: to_double_def)
    with that(1) have "js_div (Fin c) (Fin t) = to_double (c / t)"
      by (simp add: js_div_def is_inf_def is_zero_def finite_value_def)
    with that(2,3) show ?thesis
      by (simp add: js_mul_def is_inf_def is_zero_def finite_value_def)
  qed
  have g: "js_mul (js_div (Fin 0) (Fin t)) (Fin 100) = Fin 0" if "0 < t"
    using that
    by (simp add: js_mul_def js_div_def is_neg_def is_inf_def is_zero_def signed_zero_def)
  show ?thesis
    using p z f g by (auto simp: js_gt_zero_def)
qed

theorem progress_bytes_percent_guarded_witness:
  "progressPercent (import_progress_listener ''PROGRESS_BYTES:512:0''
       \<lparr>progress = '''', progressPercent = Fin 50\<rparr>) = Fin 0 \<and>
   progressPercent (import_progress_listener ''PROGRESS_BYTES:512:2048''
       \<lparr>progress = '''', progressPercent = Fin 50\<rparr>) = Fin 25 \<and>
   progressPercent (import_progress_listener ''PROGRESS_BYTES:1:3''
       \<lparr>progress = '''', progressPercent = Fin 50\<rparr>)
     = Fin (2345624805922133 / 70368744177664) \<and>
   progressPercent (import_progress_listener ''PROGRESS_BYTES:0:3''
       \<lparr>progress = '''', progressPercent = Fin 50\<rparr>) = Fin 0"
proof -
  let ?v = "\<lparr>progress = '''', progressPercent = Fin 50\<rparr>"
  have third: "to_double (150119987579016525 / 4503599627370496)
      = Fin (2345624805922133 / 70368744177664)"
    by (simp add: double_eval)
  from progress_bytes_percent_guarded [of "''512''" "''0''" ?v]
  have a: "progressPercent (import_progress_listener ''PROGRESS_BYTES:512:0'' ?v) = Fin 0"
    by (simp add: parseInt_0 is_zero_def)
  from progress_bytes_percent_guarded [of "''512''" "''2048''" ?v]
  have b: "progressPercent (import_progress_listener ''PROGRESS_BYTES:512:2048'' ?v) = Fin 25"
    by (simp add: parseInt_512 parseInt_2048 percent_512_2048 js_gt_zero_def)
  from progress_bytes_percent_guarded [of "''1''" "''3''" ?v 1 3
      "6004799503160661 / 18014398509481984"]
  have c: "progressPercent (import_progress_listener ''PROGRESS_BYTES:1:3'' ?v)
      = Fin (2345624805922133 / 70368744177664)"
    by (simp add: parseInt_1 parseInt_3 to_double_third third)
  from progress_bytes_percent_guarded [of "''0''" "''3''" ?v _ 3]
  have d: "progressPercent (import_progress_listener ''PROGRESS_BYTES:0:3'' ?v) = Fin 0"
    by (simp add: parseInt_0 parseInt_3)
  from a b c d show ?thesis by simp
qed


section \<open>Properties of thumbnail generation\<close>

subsection \<open>The operations, case by case\<close>

lemma cached_queue_upd [simp]:
  "cached (s\<lparr>thumbnailGenerationQueue := q\<rparr>) p = cached s p"
  "cached (s\<lparr>tasks := ts\<rparr>) p = cached s p"
  "cached (s\<lparr>isGeneratingThumbnails := b\<rparr>) p = cached s p"
  by (simp_all add: cached_def)

lemma processNext_Nil:
  "thumbnailGenerationQueue s = [] \<Longrightarrow>
   processNextThumbnail s = s\<lparr>isGeneratingThumbnails := False\<rparr>"
  by (simp add: processNextThumbnail_def)

lemma processNext_hit:
  "thumbnailGenerationQueue s = p # rest \<Longrightarrow> cached s p \<Longrightarrow>
   processNextThumbnail s = s\<lparr>thumbnailGenerationQueue := rest, tasks := tasks s @ [NextTimer]\<rparr>"
  by (simp add: processNextThumbnail_def generateSingleThumbnail_def)

lemma processNext_miss:
  "thumbnailGenerationQueue s = p # rest \<Longrightarrow> \<not> cached s p \<Longrightarrow>
   processNextThumbnail s =
     s\<lparr>thumbnailGenerationQueue := rest,
       thumbnailLoadingStates := (thumbnailLoadingStates s)(p \<mapsto> Loading),
       forceUpdate := forceUpdate s + 1,
       invocations := invocations s @ [p],
       tasks := tasks s @ [GenInvoke p]\<rparr>"
  by (simp add: processNextThumbnail_def generateSingleThumbnail_def)

lemma foldl_mark_pending:
  "foldl mark_pending s fs =
     s\<lparr>thumbnailLoadingStates :=
         (\<lambda>q. if q \<in> set (queued_paths fs) then Some Pending else thumbnailLoadingStates s q),
       thumbnailGenerationQueue := thumbnailGenerationQueue s @ queued_paths fs\<rparr>"
proof (induction fs arbitrary: s)
  case Nil
  show ?case by (simp add: queued_paths_def)
next
  case (Cons f fs)
  show ?case
    by (simp add: Cons.IH) (auto simp: mark_pending_def queued_paths_def fun_eq_iff)
qed

lemma initialize_eq:
  "initializeThumbnailGeneration fs s = startThumbnailGeneration (cleared fs s)"
  unfolding initializeThumbnailGeneration_def foldl_mark_pending cleared_def
  by (rule arg_cong [where f = startThumbnailGeneration]) (cases s, simp cong: if_cong)

subsection \<open>Counting the tasks of the chain\<close>

lemma chain_count_append [simp]:
  "chain_count (ts @ us) = chain_count ts + chain_count us"
  by (simp add: chain_count_def)

lemma chain_count_simps [simp]:
  "chain_count [] = 0"
  "chain_count (t # ts) = (if is_chain_task t then 1 else 0) + chain_count ts"
  by (simp_all add: chain_count_def)

lemma is_chain_task_simps [simp]:
  "is_chain_task NextTimer" "is_chain_task (GenInvoke p)" "\<not> is_chain_task (GetInvoke p)"
  by (simp_all add: is_chain_task_def)

lemma chain_count_remove:
  assumes "i < length ts"
  shows "chain_count (remove_task i ts) + (if is_chain_task (ts ! i) then 1 else 0) = chain_count ts"
proof -
  have "chain_count ts = chain_count (take i ts @ ts ! i # drop (Suc i) ts)"
    using id_take_nth_drop [OF assms] by simp
  then show ?thesis by (simp add: remove_task_def)
qed

lemma chain_count_update:
  assumes "i < length ts"
  shows "chain_count (ts[i := t]) + (if is_chain_task (ts ! i) then 1 else 0) =
         chain_count ts + (if is_chain_task t then 1 else 0)"
proof -
  have "chain_count ts = chain_count (take i ts @ ts ! i # drop (Suc i) ts)"
    using id_take_nth_drop [OF assms] by simp
  then show ?thesis by (simp add: upd_conv_take_nth_drop [OF assms])
qed

lemma chain_count_zero: "chain_count ts = 0 \<Longrightarrow> t \<in> set ts \<Longrightarrow> \<not> is_chain_task t"
  by (auto simp: chain_count_def filter_empty_conv)

lemma only_chain_task:
  assumes "chain_count ts \<le> 1" "i < length ts" "is_chain_task (ts ! i)"
    "t \<in> set (take i ts @ drop (Suc i) ts)"
  shows "\<not> is_chain_task t"
proof -
  have "chain_count ts = chain_count (take i ts @ ts ! i # drop (Suc i) ts)"
    using id_take_nth_drop [OF assms(2)] by simp
  with assms(1,3) have "chain_count (take i ts @ drop (Suc i) ts) = 0" by simp
  from chain_count_zero [OF this assms(4)] show ?thesis .
qed

subsection \<open>One chain at a time\<close>

lemma one_chain_processNext:
  assumes "chain_count (tasks s) = 0"
  shows "one_chain (processNextThumbnail (s\<lparr>isGeneratingThumbnails := True\<rparr>))"
proof (cases "thumbnailGenerationQueue s")
  case Nil
  then show ?thesis using assms by (simp add: processNext_Nil one_chain_def)
next
  case (Cons p rest)
  then show ?thesis using assms
    by (cases "cached s p") (simp_all add: processNext_hit processNext_miss one_chain_def)
qed

lemma one_chain_start:
  assumes "one_chain s"
  shows "one_chain (startThumbnailGeneration s)"
proof (cases "isGeneratingThumbnails s \<or> thumbnailGenerationQueue s = []")
  case True
  with assms show ?thesis by (simp add: startThumbnailGeneration_def)
next
  case False
  with assms have "chain_count (tasks s) = 0" by (simp add: one_chain_def)
  from one_chain_processNext [OF this] False show ?thesis
    by (simp add: startThumbnailGeneration_def)
qed

lemma one_chain_cleared: "one_chain (cleared fs s) = one_chain s"
  by (simp add: one_chain_def cleared_def)

lemma flag_already_set:
  "isGeneratingThumbnails s \<Longrightarrow> s\<lparr>isGeneratingThumbnails := True\<rparr> = s"
  by (cases s) simp

lemma one_chain_step:
  assumes "one_chain s" "step s e = Some s'"
  shows "one_chain s'"
proof (cases e)
  case (Scan fs)
  with assms show ?thesis
    by (auto simp: step_def initialize_eq one_chain_cleared intro: one_chain_start)
next
  case (Request p)
  with assms show ?thesis
    by (cases "cached s p") (auto simp: step_def getThumbnail_def one_chain_def)
next
  case (Settle i r)
  with assms(2) have i: "i < length (tasks s)" by (auto simp: step_def split: if_splits)
  show ?thesis
  proof (cases "tasks s ! i")
    case (GenInvoke p)
    with assms Settle i chain_count_update [OF i, of NextTimer] show ?thesis
      by (cases r) (auto simp: step_def generateSingleThumbnail_settled_def one_chain_def)
  next
    case NextTimer
    with assms Settle i show ?thesis by (simp add: step_def)
  next
    case (GetInvoke p)
    with assms Settle i chain_count_remove [OF i] show ?thesis
      by (cases r) (auto simp: step_def getThumbnail_settled_def one_chain_def)
  qed
next
  case (Timer i)
  with assms(2) have i: "i < length (tasks s)" and t: "tasks s ! i = NextTimer"
    and s': "s' = processNextThumbnail (s\<lparr>tasks := remove_task i (tasks s)\<rparr>)"
    by (auto simp: step_def split: if_splits)
  from chain_count_remove [OF i] t assms(1)
  have g: "isGeneratingThumbnails s" and c: "chain_count (remove_task i (tasks s)) = 0"
    by (auto simp: one_chain_def split: if_splits)
  have "s\<lparr>tasks := remove_task i (tasks s), isGeneratingThumbnails := True\<rparr> =
      s\<lparr>tasks := remove_task i (tasks s)\<rparr>"
    using g by (cases s) simp
  then have "s' = processNextThumbnail (s\<lparr>tasks := remove_task i (tasks s), isGeneratingThumbnails := True\<rparr>)"
    using s' by simp
  then show ?thesis using one_chain_processNext [of "s\<lparr>tasks := remove_task i (tasks s)\<rparr>"] c
    by simp
qed

lemma one_chain_run:
  "one_chain s \<Longrightarrow> run s evs = Some s' \<Longrightarrow> one_chain s'"
proof (induction evs arbitrary: s)
  case Nil
  then show ?case by simp
next
  case (Cons e evs)
  then show ?case by (auto split: option.splits dest: one_chain_step)
qed

lemma one_chain_initial: "one_chain initial"
  by (simp add: one_chain_def initial_def)

lemma generations_le_chain: "length (filter is_generation ts) \<le> chain_count ts"
  by (induction ts) (auto simp: is_generation_def is_chain_task_def split: task.splits)


subsection \<open>The state machine of an entry\<close>

lemma queue_sound_iff:
  "queue_sound s \<longleftrightarrow>
     distinct (thumbnailGenerationQueue s) \<and>
     (\<forall>q \<in> set (thumbnailGenerationQueue s). getThumbnailState s q = Pending) \<and>
     (\<forall>q. GenInvoke q \<in> set (tasks s) \<longrightarrow>
        getThumbnailState s q = Loading \<and> q \<notin> set (thumbnailGenerationQueue s))"
  by (auto simp: queue_sound_def list_all_iff split: task.splits)

lemma queue_soundD:
  assumes "queue_sound s"
  shows "distinct (thumbnailGenerationQueue s)"
    and "q \<in> set (thumbnailGenerationQueue s) \<Longrightarrow> getThumbnailState s q = Pending"
    and "GenInvoke q \<in> set (tasks s) \<Longrightarrow>
         getThumbnailState s q = Loading \<and> q \<notin> set (thumbnailGenerationQueue s)"
  using assms by (auto simp: queue_sound_iff)

lemma queue_soundI:
  assumes "distinct (thumbnailGenerationQueue s)"
    and "\<And>q. q \<in> set (thumbnailGenerationQueue s) \<Longrightarrow> getThumbnailState s q = Pending"
    and "\<And>q. GenInvoke q \<in> set (tasks s) \<Longrightarrow>
         getThumbnailState s q = Loading \<and> q \<notin> set (thumbnailGenerationQueue s)"
  shows "queue_sound s"
  using assms by (auto simp: queue_sound_iff)

lemma no_generation_iff: "filter is_generation ts = [] \<longleftrightarrow> (\<forall>q. GenInvoke q \<notin> set ts)"
  by (auto simp: filter_empty_conv is_generation_def split: task.splits)

lemma chain_count_zero_no_generation: "chain_count ts = 0 \<Longrightarrow> GenInvoke q \<notin> set ts"
  using chain_count_zero [of ts "GenInvoke q"] by auto

lemma set_remove_task: "set (remove_task i ts) \<subseteq> set ts"
  unfolding remove_task_def using set_take_subset [of i ts] set_drop_subset [of "Suc i" ts]
  by auto

text \<open>What \<open>processNextThumbnail\<close> does to a sound queue when no generation is in flight.\<close>

lemma processNext_sound:
  assumes q: "queue_sound s" and n: "\<And>q. GenInvoke q \<notin> set (tasks s)"
  shows "queue_sound (processNextThumbnail s)"
    and "move (getThumbnailState s p) (getThumbnailState (processNextThumbnail s) p)"
    and "getThumbnailState s p = Pending \<Longrightarrow> \<not> cached s p \<Longrightarrow>
         getThumbnailState (processNextThumbnail s) p =
           (if GenInvoke p \<in> set (tasks (processNextThumbnail s)) then Loading else Pending)"
proof -
  note d = queue_soundD [OF q]
  show "queue_sound (processNextThumbnail s)"
  proof (cases "thumbnailGenerationQueue s")
    case Nil
    with q show ?thesis by (simp add: processNext_Nil queue_sound_iff getThumbnailState_def)
  next
    case (Cons h rest)
    show ?thesis
    proof (cases "cached s h")
      case True
      show ?thesis
        unfolding processNext_hit [OF Cons True]
        using d Cons n by (intro queue_soundI) (auto simp: getThumbnailState_def)
    next
      case False
      show ?thesis
        unfolding processNext_miss [OF Cons False]
        using d Cons n by (intro queue_soundI) (auto simp: getThumbnailState_def)
    qed
  qed
  show "move (getThumbnailState s p) (getThumbnailState (processNextThumbnail s) p)"
  proof (cases "thumbnailGenerationQueue s")
    case Nil
    then show ?thesis by (simp add: processNext_Nil move_def getThumbnailState_def)
  next
    case (Cons h rest)
    show ?thesis
    proof (cases "cached s h")
      case True
      show ?thesis
        unfolding processNext_hit [OF Cons True] by (simp add: move_def getThumbnailState_def)
    next
      case False
      have "getThumbnailState s h = Pending" using d(2) [of h] Cons by simp
      then show ?thesis
        unfolding processNext_miss [OF Cons False] by (auto simp: move_def getThumbnailState_def)
    qed
  qed
  show "getThumbnailState (processNextThumbnail s) p =
           (if GenInvoke p \<in> set (tasks (processNextThumbnail s)) then Loading else Pending)"
    if "getThumbnailState s p = Pending" "\<not> cached s p"
  proof (cases "thumbnailGenerationQueue s")
    case Nil
    then show ?thesis using that n by (simp add: processNext_Nil getThumbnailState_def)
  next
    case (Cons h rest)
    show ?thesis
    proof (cases "cached s h")
      case True
      show ?thesis
        unfolding processNext_hit [OF Cons True] using that n by (simp add: getThumbnailState_def)
    next
      case False
      show ?thesis
        unfolding processNext_miss [OF Cons False] using that n
        by (auto simp: getThumbnailState_def)
    qed
  qed
qed

lemma flag_upd_sound [simp]:
  "queue_sound (s\<lparr>isGeneratingThumbnails := b\<rparr>) = queue_sound s"
  "getThumbnailState (s\<lparr>isGeneratingThumbnails := b\<rparr>) p = getThumbnailState s p"
  by (simp_all add: queue_sound_iff getThumbnailState_def)

lemma cleared_props:
  "getThumbnailState (cleared fs s) p = Pending"
  "\<not> cached (cleared fs s) p"
  "tasks (cleared fs s) = tasks s"
  "distinct (queued_paths fs) \<Longrightarrow> (\<And>q. GenInvoke q \<notin> set (tasks s)) \<Longrightarrow> queue_sound (cleared fs s)"
proof -
  show "getThumbnailState (cleared fs s) p = Pending"
    by (simp add: cleared_def getThumbnailState_def)
  show "\<not> cached (cleared fs s) p" by (simp add: cleared_def cached_def)
  show "tasks (cleared fs s) = tasks s" by (simp add: cleared_def)
  show "queue_sound (cleared fs s)"
    if "distinct (queued_paths fs)" "\<And>q. GenInvoke q \<notin> set (tasks s)"
    using that by (intro queue_soundI) (auto simp: cleared_def getThumbnailState_def)
qed

text \<open>An orderly scan: every path is pending afterwards, but the one whose generation started.\<close>

lemma scan_sound:
  assumes "distinct (queued_paths fs)" and n: "\<And>q. GenInvoke q \<notin> set (tasks s)"
  shows "queue_sound (initializeThumbnailGeneration fs s)"
    and "getThumbnailState (initializeThumbnailGeneration fs s) p =
           (if GenInvoke p \<in> set (tasks (initializeThumbnailGeneration fs s))
            then Loading else Pending)"
proof -
  let ?c = "cleared fs s"
  have qs: "queue_sound ?c" using assms by (rule cleared_props(4))
  have n': "\<And>q. GenInvoke q \<notin> set (tasks (?c\<lparr>isGeneratingThumbnails := True\<rparr>))"
    using n by (simp add: cleared_props(3))
  have qs': "queue_sound (?c\<lparr>isGeneratingThumbnails := True\<rparr>)" using qs by simp
  show "queue_sound (initializeThumbnailGeneration fs s)"
    unfolding initialize_eq startThumbnailGeneration_def
    using qs processNext_sound(1) [OF qs' n'] by simp
  have "getThumbnailState (processNextThumbnail (?c\<lparr>isGeneratingThumbnails := True\<rparr>)) p =
      (if GenInvoke p \<in> set (tasks (processNextThumbnail (?c\<lparr>isGeneratingThumbnails := True\<rparr>)))
       then Loading else Pending)"
    by (rule processNext_sound(3) [OF qs' n']) (simp_all add: cleared_props)
  then show "getThumbnailState (initializeThumbnailGeneration fs s) p =
           (if GenInvoke p \<in> set (tasks (initializeThumbnailGeneration fs s))
            then Loading else Pending)"
    unfolding initialize_eq startThumbnailGeneration_def
    using n by (simp add: cleared_props)
qed


lemma tasks_upd_sound [simp]:
  "getThumbnailState (s\<lparr>tasks := ts\<rparr>) p = getThumbnailState s p"
  "getThumbnailState (s\<lparr>invocations := xs\<rparr>) p = getThumbnailState s p"
  "getThumbnailState (s\<lparr>thumbnailCache := c\<rparr>) p = getThumbnailState s p"
  by (simp_all add: getThumbnailState_def)

lemma queue_sound_fewer_tasks:
  "queue_sound s \<Longrightarrow> set ts \<subseteq> set (tasks s) \<Longrightarrow> queue_sound (s\<lparr>tasks := ts\<rparr>)"
  by (auto simp: queue_sound_iff)

lemma one_chain_le: "one_chain s \<Longrightarrow> chain_count (tasks s) \<le> 1"
  by (simp add: one_chain_def split: if_splits)

lemma others_not_generation:
  assumes "one_chain s" "i < length (tasks s)" "is_chain_task (tasks s ! i)"
  shows "GenInvoke q \<notin> set (remove_task i (tasks s))"
    and "GenInvoke q \<notin> set ((tasks s)[i := NextTimer])"
proof -
  have r: "\<not> is_chain_task t" if "t \<in> set (take i (tasks s) @ drop (Suc i) (tasks s))" for t
    using only_chain_task [OF one_chain_le [OF assms(1)] assms(2,3) that] .
  show "GenInvoke q \<notin> set (remove_task i (tasks s))"
    using r [of "GenInvoke q"] by (auto simp: remove_task_def)
  show "GenInvoke q \<notin> set ((tasks s)[i := NextTimer])"
    using r [of "GenInvoke q"] by (auto simp: upd_conv_take_nth_drop [OF assms(2)])
qed

lemma settle_generation:
  assumes qs: "queue_sound s" and oc: "one_chain s" and i: "i < length (tasks s)"
    and t: "tasks s ! i = GenInvoke q"
  shows "queue_sound ((generateSingleThumbnail_settled q r s)\<lparr>tasks := (tasks s)[i := NextTimer]\<rparr>)"
    and "move (getThumbnailState s p)
           (getThumbnailState ((generateSingleThumbnail_settled q r s)\<lparr>tasks := (tasks s)[i := NextTimer]\<rparr>) p)"
proof -
  have m: "GenInvoke q \<in> set (tasks s)" using i t by (metis nth_mem)
  note d = queue_soundD [OF qs]
  have l: "getThumbnailState s q = Loading" and nq: "q \<notin> set (thumbnailGenerationQueue s)"
    using d(3) [OF m] by simp_all
  have n: "\<And>q'. GenInvoke q' \<notin> set ((tasks s)[i := NextTimer])"
    using others_not_generation(2) [OF oc i] t by simp
  show "queue_sound ((generateSingleThumbnail_settled q r s)\<lparr>tasks := (tasks s)[i := NextTimer]\<rparr>)"
    using d(1,2) nq n
    by (cases r) (auto simp: queue_sound_iff generateSingleThumbnail_settled_def getThumbnailState_def)
  show "move (getThumbnailState s p)
           (getThumbnailState ((generateSingleThumbnail_settled q r s)\<lparr>tasks := (tasks s)[i := NextTimer]\<rparr>) p)"
    using l
    by (cases r) (auto simp: move_def generateSingleThumbnail_settled_def getThumbnailState_def)
qed

lemma orderly_step:
  assumes qs: "queue_sound s" and oc: "one_chain s" and o: "orderly s e"
    and st: "step s e = Some s'"
  shows "queue_sound s'"
    and "is_scan e \<Longrightarrow> getThumbnailState s' p =
            (if GenInvoke p \<in> set (tasks s') then Loading else Pending)"
    and "\<not> is_scan e \<Longrightarrow> move (getThumbnailState s p) (getThumbnailState s' p)"
proof -
  have "queue_sound s' \<and>
      (is_scan e \<longrightarrow> getThumbnailState s' p =
            (if GenInvoke p \<in> set (tasks s') then Loading else Pending)) \<and>
      (\<not> is_scan e \<longrightarrow> move (getThumbnailState s p) (getThumbnailState s' p))"
  proof (cases e)
    case (Scan fs)
    from o Scan have d: "distinct (queued_paths fs)" and n: "\<And>q. GenInvoke q \<notin> set (tasks s)"
      by (simp_all add: orderly_def no_generation_iff)
    from st Scan have s': "s' = initializeThumbnailGeneration fs s" by (simp add: step_def)
    show ?thesis
      unfolding s' using scan_sound(1) [OF d n] scan_sound(2) [OF d n, of p] Scan
        by (simp add: is_scan_def)
  next
    case (Request q)
    with st qs show ?thesis
      by (cases "cached s q")
        (auto simp: step_def getThumbnail_def is_scan_def move_def queue_sound_iff)
  next
    case (Settle i r)
    with st have i: "i < length (tasks s)" by (auto simp: step_def split: if_splits)
    show ?thesis
    proof (cases "tasks s ! i")
      case (GenInvoke q)
      with st Settle i
      have s': "s' = (generateSingleThumbnail_settled q r s)\<lparr>tasks := (tasks s)[i := NextTimer]\<rparr>"
        by (simp add: step_def)
      show ?thesis
        unfolding s' using settle_generation(1) [OF qs oc i GenInvoke, of r]
          settle_generation(2) [OF qs oc i GenInvoke, of p r] Settle
        by (simp add: is_scan_def)
    next
      case NextTimer
      with st Settle i show ?thesis by (simp add: step_def)
    next
      case (GetInvoke q)
      with st Settle i
      have s': "s' = (snd (getThumbnail_settled q r s))\<lparr>tasks := remove_task i (tasks s)\<rparr>"
        by (simp add: step_def)
      show ?thesis
        unfolding s' using qs set_remove_task [of i "tasks s"] Settle
        by (cases r)
          (auto simp: getThumbnail_settled_def is_scan_def move_def queue_sound_iff)
    qed
  next
    case (Timer i)
    with st have i: "i < length (tasks s)" and t: "tasks s ! i = NextTimer"
      and s': "s' = processNextThumbnail (s\<lparr>tasks := remove_task i (tasks s)\<rparr>)"
      by (auto simp: step_def split: if_splits)
    let ?s1 = "s\<lparr>tasks := remove_task i (tasks s)\<rparr>"
    have q1: "queue_sound ?s1"
      using queue_sound_fewer_tasks [OF qs set_remove_task] .
    have n1: "\<And>q. GenInvoke q \<notin> set (tasks ?s1)"
      using others_not_generation(1) [OF oc i] t by simp
    show ?thesis
      unfolding s' using processNext_sound(1) [OF q1 n1] processNext_sound(2) [OF q1 n1, of p] Timer
      by (simp add: is_scan_def)
  qed
  then show "queue_sound s'"
    and "is_scan e \<Longrightarrow> getThumbnailState s' p =
            (if GenInvoke p \<in> set (tasks s') then Loading else Pending)"
    and "\<not> is_scan e \<Longrightarrow> move (getThumbnailState s p) (getThumbnailState s' p)"
    by simp_all
qed

lemma orderly_run_sound:
  "orderly_run s evs \<Longrightarrow> run s evs = Some s' \<Longrightarrow> queue_sound s \<Longrightarrow> one_chain s \<Longrightarrow>
   queue_sound s' \<and> one_chain s'"
proof (induction evs arbitrary: s)
  case Nil
  then show ?case by simp
next
  case (Cons e evs)
  from Cons.prems(2) obtain s1 where s1: "step s e = Some s1" and r: "run s1 evs = Some s'"
    by (auto split: option.splits)
  from Cons.prems(1) s1 have o: "orderly s e" and os: "orderly_run s1 evs" by simp_all
  have "queue_sound s1" using orderly_step(1) [OF Cons.prems(3,4) o s1] .
  moreover have "one_chain s1" using one_chain_step [OF Cons.prems(4) s1] .
  ultimately show ?case using Cons.IH [OF os r] by simp
qed

lemma queue_sound_initial: "queue_sound initial"
  by (simp add: queue_sound_iff initial_def)


lemmas thumbs_eval =
  step_def initializeThumbnailGeneration_def startThumbnailGeneration_def
  processNextThumbnail_def generateSingleThumbnail_def generateSingleThumbnail_settled_def
  getThumbnail_def getThumbnail_settled_def mark_pending_def cached_def getThumbnailState_def
  remove_task_def initial_def photo_def clip_def

text \<open>
  Claim C5, as the code has it. Take a run in which every scan lists each path once and
  arrives while no generation of the queue awaits the backend. Then an event that is not
  a scan moves the state of a path along \<open>pending \<rightarrow> loading \<rightarrow> loaded | error\<close> or leaves
  it, so a loaded or error entry stays as it is until the next scan; and after a scan
  every path is pending, except the first queued path, whose generation the scan has
  started and which is loading.
\<close>

theorem thumbnail_entry_moves:
  assumes "orderly_run initial evs" and "run initial evs = Some s"
    and "orderly s e" and "step s e = Some s'"
  shows "(is_scan e \<longrightarrow>
            getThumbnailState s' p = (if GenInvoke p \<in> set (tasks s') then Loading else Pending)) \<and>
         (\<not> is_scan e \<longrightarrow> move (getThumbnailState s p) (getThumbnailState s' p)) \<and>
         (\<not> is_scan e \<and> (getThumbnailState s p = Loaded \<or> getThumbnailState s p = Error) \<longrightarrow>
            getThumbnailState s' p = getThumbnailState s p)"
proof -
  have inv: "queue_sound s \<and> one_chain s"
    using orderly_run_sound [OF assms(1,2) queue_sound_initial one_chain_initial] .
  then have qs: "queue_sound s" and oc: "one_chain s" by simp_all
  have a: "getThumbnailState s' p = (if GenInvoke p \<in> set (tasks s') then Loading else Pending)"
    if "is_scan e"
    using orderly_step(2) [OF qs oc assms(3,4) that] .
  have b: "move (getThumbnailState s p) (getThumbnailState s' p)" if "\<not> is_scan e"
    using orderly_step(3) [OF qs oc assms(3,4) that] .
  have c: "getThumbnailState s' p = getThumbnailState s p"
    if "\<not> is_scan e" "getThumbnailState s p = Loaded \<or> getThumbnailState s p = Error"
    using b [OF that(1)] that(2) by (auto simp: move_def)
  from a b c show ?thesis by blast
qed

theorem thumbnail_entry_moves_witness:
  "\<exists>s s'. orderly_run initial [Scan [photo, clip], Settle 0 (Rejected ''corrupt''), Timer 0] \<and>
     run initial [Scan [photo, clip], Settle 0 (Rejected ''corrupt''), Timer 0] = Some s \<and>
     step s (Settle 0 (Resolved ''data:image/jpeg;base64,AAAA'')) = Some s' \<and>
     getThumbnailState s ''/sd/a.jpg'' = Error \<and> getThumbnailState s' ''/sd/a.jpg'' = Error \<and>
     getThumbnailState s ''/sd/b.mp4'' = Loading \<and> getThumbnailState s' ''/sd/b.mp4'' = Loaded \<and>
     move (getThumbnailState s ''/sd/b.mp4'') (getThumbnailState s' ''/sd/b.mp4'')"
proof -
  let ?evs = "[Scan [photo, clip], Settle 0 (Rejected ''corrupt''), Timer 0]"
  let ?e = "Settle 0 (Resolved ''data:image/jpeg;base64,AAAA'')"
  have o: "orderly_run initial ?evs"
    by (simp add: thumbs_eval orderly_def queued_paths_def is_generation_def)
  obtain s where s: "run initial ?evs = Some s" by (simp add: thumbs_eval)
  have e: "orderly s ?e" by (simp add: orderly_def)
  obtain s' where s': "step s ?e = Some s'"
    using s by (auto simp add: thumbs_eval)
  have v: "getThumbnailState s ''/sd/a.jpg'' = Error" "getThumbnailState s ''/sd/b.mp4'' = Loading"
    "getThumbnailState s' ''/sd/b.mp4'' = Loaded"
    using s s' by (auto simp add: thumbs_eval)
  from thumbnail_entry_moves [OF o s e s', of "''/sd/a.jpg''"]
    thumbnail_entry_moves [OF o s e s', of "''/sd/b.mp4''"] v o s s'
  show ?thesis by (simp add: is_scan_def)
qed

text \<open>
  Claim C5 as the specification words it fails. The list of a second scan of the same
  files arrives while the generation of the first scan still awaits the backend: the
  scan resets the path to pending, the late rejection sets it to error without passing
  through loading, and the next turn of the chain, which finds the path on the new queue,
  sets the error entry to loading with no scan in between.
\<close>

theorem late_reply_breaks_state_machine:
  "state_after [Scan [photo]] ''/sd/a.jpg'' = Some Loading \<and>
   state_after [Scan [photo], Scan [photo]] ''/sd/a.jpg'' = Some Pending \<and>
   state_after [Scan [photo], Scan [photo], Settle 0 (Rejected ''io'')] ''/sd/a.jpg'' = Some Error \<and>
   state_after [Scan [photo], Scan [photo], Settle 0 (Rejected ''io''), Timer 0] ''/sd/a.jpg''
     = Some Loading"
  by (simp add: state_after_def thumbs_eval)

text \<open>
  Claim C8, as the code has it. The generations of the queue are serialized: in every
  state the component can reach, at most one call of \<open>generateSingleThumbnail\<close> awaits the
  backend, so at most one per path. (Requests through \<open>getThumbnail\<close> are not part of
  this: see the counterexample.)
\<close>

theorem queue_generation_serialized:
  assumes "run initial evs = Some s"
  shows "length (filter is_generation (tasks s)) \<le> 1 \<and> count_list (tasks s) (GenInvoke p) \<le> 1"
proof -
  have "one_chain s" using one_chain_run [OF one_chain_initial assms] .
  then have "chain_count (tasks s) \<le> 1" by (rule one_chain_le)
  with generations_le_chain [of "tasks s"]
  have g: "length (filter is_generation (tasks s)) \<le> 1" by simp
  have "count_list ts (GenInvoke p) \<le> length (filter is_generation ts)" for ts
    by (induction ts) (auto simp: is_generation_def)
  from this [of "tasks s"] g show ?thesis by simp
qed

theorem queue_generation_serialized_witness:
  "\<exists>s. run initial [Scan [photo, clip], Request ''/sd/b.mp4''] = Some s \<and>
     tasks s = [GenInvoke ''/sd/a.jpg'', GetInvoke ''/sd/b.mp4''] \<and>
     length (filter is_generation (tasks s)) \<le> 1 \<and>
     count_list (tasks s) (GenInvoke ''/sd/a.jpg'') \<le> 1"
proof -
  obtain s where s: "run initial [Scan [photo, clip], Request ''/sd/b.mp4''] = Some s"
    by (simp add: thumbs_eval)
  then have "tasks s = [GenInvoke ''/sd/a.jpg'', GetInvoke ''/sd/b.mp4'']"
    by (auto simp add: thumbs_eval)
  with queue_generation_serialized [OF s, of "''/sd/a.jpg''"] s show ?thesis by blast
qed

text \<open>
  Claim C8 as the specification words it fails: concurrent requests for one path are not
  coalesced. While the generation of a path awaits the backend, a \<open>getThumbnail\<close> request
  for the same path finds no cache entry and invokes the backend again: two invocations
  for the path are in flight.
\<close>

theorem same_path_invoked_twice:
  "map_option tasks (run initial [Scan [photo], Request ''/sd/a.jpg''])
     = Some [GenInvoke ''/sd/a.jpg'', GetInvoke ''/sd/a.jpg''] \<and>
   map_option invocations (run initial [Scan [photo], Request ''/sd/a.jpg''])
     = Some [''/sd/a.jpg'', ''/sd/a.jpg'']"
  by (simp add: thumbs_eval)


subsection \<open>Cache hits\<close>

lemma processNext_cache [simp]:
  "thumbnailCache (processNextThumbnail s) = thumbnailCache s"
proof (cases "thumbnailGenerationQueue s")
  case Nil
  then show ?thesis by (simp add: processNext_Nil)
next
  case (Cons h rest)
  then show ?thesis
    by (cases "cached s h") (simp_all add: processNext_hit processNext_miss)
qed










subsection \<open>Failures\<close>

text \<open>
  Claim C7. When the generation of a path is rejected, the step is taken (nothing is
  thrown): the path's entry becomes error, the entry of every other path, the whole
  cache and the queue are as before, and the chain goes on to its timer. When the timer
  fires the next queued path is taken: if it has no cached payload it becomes loading and
  the backend is invoked for it. The entries of the other paths are the same as if the
  generation had succeeded, and the entry a later generation leaves for its own path
  depends on its own reply only.
\<close>

theorem generation_failure_isolated:
  assumes "i < length (tasks s)" and "tasks s ! i = GenInvoke p"
  shows "\<exists>s'. step s (Settle i (Rejected err)) = Some s' \<and>
           getThumbnailState s' p = Error \<and>
           (\<forall>q. q \<noteq> p \<longrightarrow> getThumbnailState s' q = getThumbnailState s q \<and>
              getThumbnailState (generateSingleThumbnail_settled p (Resolved t) s) q =
                getThumbnailState s' q) \<and>
           thumbnailCache s' = thumbnailCache s \<and>
           thumbnailGenerationQueue s' = thumbnailGenerationQueue s \<and>
           tasks s' = (tasks s)[i := NextTimer] \<and>
           step s' (Timer i) = Some (processNextThumbnail (s'\<lparr>tasks := remove_task i (tasks s')\<rparr>)) \<and>
           (\<forall>q rest. thumbnailGenerationQueue s = q # rest \<and> \<not> cached s q \<longrightarrow>
              (\<exists>s''. step s' (Timer i) = Some s'' \<and> getThumbnailState s'' q = Loading \<and>
                 GenInvoke q \<in> set (tasks s'') \<and> thumbnailGenerationQueue s'' = rest \<and>
                 invocations s'' = invocations s @ [q])) \<and>
           (\<forall>q r s2. getThumbnailState (generateSingleThumbnail_settled q r s2) q =
              (case r of Resolved x \<Rightarrow> Loaded | Rejected x \<Rightarrow> Error))"
proof -
  let ?s' = "(generateSingleThumbnail_settled p (Rejected err) s)\<lparr>tasks := (tasks s)[i := NextTimer]\<rparr>"
  have st: "step s (Settle i (Rejected err)) = Some ?s'"
    using assms by (simp add: step_def)
  have a: "getThumbnailState ?s' p = Error"
    by (simp add: generateSingleThumbnail_settled_def getThumbnailState_def)
  have b: "getThumbnailState ?s' q = getThumbnailState s q \<and>
      getThumbnailState (generateSingleThumbnail_settled p (Resolved t) s) q =
        getThumbnailState ?s' q" if "q \<noteq> p" for q
    using that by (simp add: generateSingleThumbnail_settled_def getThumbnailState_def)
  have c: "thumbnailCache ?s' = thumbnailCache s"
    "thumbnailGenerationQueue ?s' = thumbnailGenerationQueue s"
    "tasks ?s' = (tasks s)[i := NextTimer]"
    "invocations (generateSingleThumbnail_settled p (Rejected err) s) = invocations s"
    by (simp_all add: generateSingleThumbnail_settled_def)
  have tm: "step ?s' (Timer i) = Some (processNextThumbnail (?s'\<lparr>tasks := remove_task i (tasks ?s')\<rparr>))"
    using assms(1) by (simp add: step_def c(3))
  have d: "\<exists>s''. step ?s' (Timer i) = Some s'' \<and> getThumbnailState s'' q = Loading \<and>
                 GenInvoke q \<in> set (tasks s'') \<and> thumbnailGenerationQueue s'' = rest \<and>
                 invocations s'' = invocations s @ [q]"
    if "thumbnailGenerationQueue s = q # rest" "\<not> cached s q" for q rest
  proof -
    let ?s1 = "?s'\<lparr>tasks := remove_task i (tasks ?s')\<rparr>"
    have q1: "thumbnailGenerationQueue ?s1 = q # rest" using that(1) c(2) by simp
    have "cached ?s1 q = cached s q" using c(1) by (simp add: cached_def)
    with that(2) have n1: "\<not> cached ?s1 q" by simp
    show ?thesis
      unfolding tm processNext_miss [OF q1 n1]
      by (simp add: getThumbnailState_def c(4))
  qed
  have e: "getThumbnailState (generateSingleThumbnail_settled q r s2) q =
              (case r of Resolved x \<Rightarrow> Loaded | Rejected x \<Rightarrow> Error)" for q r s2
    by (cases r) (simp_all add: generateSingleThumbnail_settled_def getThumbnailState_def)
  from st a b c(1,2,3) tm d e show ?thesis by blast
qed

theorem generation_failure_isolated_witness:
  "\<exists>s s' s''. run initial [Scan [photo, clip]] = Some s \<and>
     step s (Settle 0 (Rejected ''corrupt'')) = Some s' \<and>
     getThumbnailState s' ''/sd/a.jpg'' = Error \<and>
     getThumbnailState s' ''/sd/b.mp4'' = Pending \<and>
     step s' (Timer 0) = Some s'' \<and>
     getThumbnailState s'' ''/sd/b.mp4'' = Loading \<and>
     invocations s'' = [''/sd/a.jpg'', ''/sd/b.mp4'']"
proof -
  obtain s where s: "run initial [Scan [photo, clip]] = Some s" by (simp add: thumbs_eval)
  then have t: "0 < length (tasks s)" "tasks s ! 0 = GenInvoke ''/sd/a.jpg''"
    and q: "thumbnailGenerationQueue s = [''/sd/b.mp4'']" "\<not> cached s ''/sd/b.mp4''"
    and v: "getThumbnailState s ''/sd/b.mp4'' = Pending" "invocations s = [''/sd/a.jpg'']"
    by (auto simp add: thumbs_eval)
  from generation_failure_isolated [OF t, of "''corrupt''" "''''"]
  obtain s' where s': "step s (Settle 0 (Rejected ''corrupt'')) = Some s'"
    and e: "getThumbnailState s' ''/sd/a.jpg'' = Error"
    and o: "\<forall>q. q \<noteq> ''/sd/a.jpg'' \<longrightarrow> getThumbnailState s' q = getThumbnailState s q \<and>
              getThumbnailState (generateSingleThumbnail_settled ''/sd/a.jpg'' (Resolved '''') s) q =
                getThumbnailState s' q"
    and n: "\<forall>q rest. thumbnailGenerationQueue s = q # rest \<and> \<not> cached s q \<longrightarrow>
              (\<exists>s''. step s' (Timer 0) = Some s'' \<and> getThumbnailState s'' q = Loading \<and>
                 GenInvoke q \<in> set (tasks s'') \<and> thumbnailGenerationQueue s'' = rest \<and>
                 invocations s'' = invocations s @ [q])"
    by (elim exE conjE) (rule that, assumption+)
  from o v(1) have p: "getThumbnailState s' ''/sd/b.mp4'' = Pending" by simp
  from n q obtain s'' where s'': "step s' (Timer 0) = Some s''"
    "getThumbnailState s'' ''/sd/b.mp4'' = Loading"
    "invocations s'' = invocations s @ [''/sd/b.mp4'']"
    by blast
  from s''(3) v(2) have i: "invocations s'' = [''/sd/a.jpg'', ''/sd/b.mp4'']" by simp
  show ?thesis
    by (rule exI [of _ s], rule exI [of _ s'], rule exI [of _ s''])
      (simp only: s s' e p s''(1,2) i)
qed

text \<open>
  Claim C9 at its failing input. A \<open>getThumbnail\<close> request whose backend call is rejected
  returns the empty string, the value it would return for a backend that resolved to an
  empty payload, and records nothing: the state is the one before the reply, the path's
  entry is still pending. The sibling \<open>generateSingleThumbnail\<close> records the same
  rejection as an error entry.
\<close>

theorem getThumbnail_failure_swallowed:
  "getThumbnail ''/sd/a.jpg'' initial =
     (None, initial\<lparr>tasks := [GetInvoke ''/sd/a.jpg''], invocations := [''/sd/a.jpg'']\<rparr>) \<and>
   getThumbnail_settled ''/sd/a.jpg'' (Rejected ''decode failed'')
       (initial\<lparr>tasks := [GetInvoke ''/sd/a.jpg''], invocations := [''/sd/a.jpg'']\<rparr>) =
     ('''', initial\<lparr>tasks := [GetInvoke ''/sd/a.jpg''], invocations := [''/sd/a.jpg'']\<rparr>) \<and>
   fst (getThumbnail_settled ''/sd/a.jpg'' (Resolved '''')
       (initial\<lparr>tasks := [GetInvoke ''/sd/a.jpg''], invocations := [''/sd/a.jpg'']\<rparr>)) = '''' \<and>
   state_after [Request ''/sd/a.jpg'', Settle 0 (Rejected ''decode failed'')] ''/sd/a.jpg''
     = Some Pending \<and>
   state_after [Scan [photo], Settle 0 (Rejected ''decode failed'')] ''/sd/a.jpg'' = Some Error"
  by (simp add: state_after_def thumbs_eval)


section \<open>Properties of the backend commands\<close>

subsection \<open>Duplicate check\<close>

text \<open>
  Claim C1. \<open>check_existing\<close> returns one boolean per candidate, in the order of the
  candidates, and the boolean of a candidate is true exactly if the top level of the
  destination holds an entry with the candidate's file name and the candidate's size.
  So a candidate is not flagged when every entry of its name has another size, nor when
  no entry has its name, whatever the sizes; and what lies below the top level of the
  destination plays no part.
\<close>

theorem check_existing_parallel:
  "length (check_existing candidates destination_dir) = length candidates \<and>
   (\<forall>i < length candidates.
      check_existing candidates destination_dir ! i \<longleftrightarrow>
        (\<exists>e \<in> set destination_dir.
           entry_name e = file_name (cand_path (candidates ! i)) \<and>
           entry_size e = cand_size (candidates ! i))) \<and>
   (\<forall>i < length candidates.
      (\<forall>e \<in> set destination_dir.
         entry_name e = file_name (cand_path (candidates ! i)) \<longrightarrow>
         entry_size e \<noteq> cand_size (candidates ! i)) \<longrightarrow>
      \<not> check_existing candidates destination_dir ! i) \<and>
   (\<forall>i < length candidates.
      (\<forall>e \<in> set destination_dir.
         entry_name e \<noteq> file_name (cand_path (candidates ! i))) \<longrightarrow>
      \<not> check_existing candidates destination_dir ! i) \<and>
   check_existing candidates
     (map (\<lambda>e. Entry (entry_name e) (entry_size e) []) destination_dir) =
   check_existing candidates destination_dir"
proof -
  let ?r = "check_existing candidates destination_dir"
  have l: "length ?r = length candidates" by (simp add: check_existing_def)
  have n: "?r ! i \<longleftrightarrow>
        (\<exists>e \<in> set destination_dir.
           entry_name e = file_name (cand_path (candidates ! i)) \<and>
           entry_size e = cand_size (candidates ! i))" if "i < length candidates" for i
    using that by (simp add: check_existing_def exists_in_def list_ex_iff)
  have t: "exists_in (map (\<lambda>e. Entry (entry_name e) (entry_size e) []) destination_dir) c =
      exists_in destination_dir c" for c
    by (auto simp: exists_in_def list_ex_iff)
  have f: "check_existing candidates
     (map (\<lambda>e. Entry (entry_name e) (entry_size e) []) destination_dir) = ?r"
    by (simp add: check_existing_def t)
  from l n f show ?thesis by auto
qed

theorem check_existing_parallel_witness:
  "check_existing
     [\<lparr>cand_path = ''/sd/IMG_0001.jpg'', cand_size = 2048000\<rparr>,
      \<lparr>cand_path = ''/sd/IMG_0001.jpg'', cand_size = 1024\<rparr>,
      \<lparr>cand_path = ''/sd/IMG_0002.jpg'', cand_size = 2048000\<rparr>]
     [Entry ''IMG_0001.jpg'' 2048000 [], Entry ''old'' 4096 [Entry ''IMG_0002.jpg'' 2048000 []]]
   = [True, False, False]"
proof -
  let ?cs = "[\<lparr>cand_path = ''/sd/IMG_0001.jpg'', cand_size = 2048000\<rparr>,
      \<lparr>cand_path = ''/sd/IMG_0001.jpg'', cand_size = 1024\<rparr>,
      \<lparr>cand_path = ''/sd/IMG_0002.jpg'', cand_size = 2048000\<rparr>]"
  let ?d = "[Entry ''IMG_0001.jpg'' 2048000 [], Entry ''old'' 4096 [Entry ''IMG_0002.jpg'' 2048000 []]]"
  define r where "r = check_existing ?cs ?d"
  from check_existing_parallel [of ?cs ?d]
  have l: "length r = 3"
    and n: "\<forall>i<3. r ! i \<longleftrightarrow>
        (\<exists>e \<in> set ?d. entry_name e = file_name (cand_path (?cs ! i)) \<and>
           entry_size e = cand_size (?cs ! i))"
    unfolding r_def by simp_all
  from n have a: "r ! 0" by (simp add: file_name_def)
  from n have b: "\<not> r ! 1" by (simp add: file_name_def)
  from n have c: "\<not> r ! 2" by (simp add: file_name_def)
  have "r = [r ! 0, r ! 1, r ! 2]"
    using l by (auto simp: list_eq_iff_nth_eq less_Suc_eq numeral_3_eq_3 numeral_2_eq_2)
  with a b c have "r = [True, False, False]" by simp
  then show ?thesis unfolding r_def .
qed

subsection \<open>Names with a numeric suffix\<close>

lemma digits_value_digits: "digits_value (digits n) = n"
proof (induction n rule: digits.induct)
  case (1 n)
  show ?case
  proof (cases "n < 10")
    case True
    then show ?thesis by (subst digits.simps) (simp add: digits_value_def)
  next
    case False
    have m: "of_char (char_of (48 + n mod 10)) = 48 + n mod 10"
      by (simp add: of_char_of)
    have "digits_value (digits n) = 10 * digits_value (digits (n div 10)) + n mod 10"
      by (subst digits.simps) (use False m in \<open>simp add: digits_value_def\<close>)
    with "1.IH" [OF False] show ?thesis by simp
  qed
qed

lemma digits_inj: "digits j = digits k \<Longrightarrow> j = k"
  by (metis digits_value_digits)

lemma suffixed_inj: "inj (suffixed n)"
  by (auto simp: inj_def suffixed_def dest: digits_inj)

lemma disambiguate_fresh:
  "\<exists>n'. disambiguate dest n = Some n' \<and> n' \<notin> set (map fst dest)"
proof -
  let ?names = "set (map fst dest)"
  let ?ks = "{1..<length dest + 2}"
  have "\<exists>k \<in> ?ks. suffixed n k \<notin> ?names"
  proof (rule ccontr)
    assume "\<not> (\<exists>k \<in> ?ks. suffixed n k \<notin> ?names)"
    then have "suffixed n ` ?ks \<subseteq> ?names" by blast
    then have "card (suffixed n ` ?ks) \<le> card ?names" by (simp add: card_mono)
    moreover have "card (suffixed n ` ?ks) = card ?ks"
      by (rule card_image) (rule inj_on_subset [OF suffixed_inj], simp)
    moreover have "card ?names \<le> length dest" using card_length [of "map fst dest"] by simp
    ultimately show False by simp
  qed
  then have "\<exists>k. k \<in> set [1..<length dest + 2] \<and> suffixed n k \<notin> ?names"
    by (simp only: set_upt) blast
  then have "find (\<lambda>k. suffixed n k \<notin> ?names) [1..<length dest + 2] \<noteq> None"
    by (simp only: find_None_iff not_not)
  then obtain k where k: "find (\<lambda>k. suffixed n k \<notin> ?names) [1..<length dest + 2] = Some k"
    by blast
  then have "suffixed n k \<notin> ?names" by (auto simp: find_Some_iff)
  with k show ?thesis by (simp add: disambiguate_def)
qed

subsection \<open>One file\<close>

lemma transfer_file_extends:
  assumes "transfer_file src dest p = Inr (out, dest')"
  shows "dest' = dest \<or> (\<exists>n' content. dest' = dest @ [(n', content)] \<and> n' \<notin> set (map fst dest))"
proof (cases "src p")
  case (Inl f)
  with assms show ?thesis by (cases f) (simp_all add: transfer_file_def)
next
  case (Inr content)
  from disambiguate_fresh [of dest "file_name p"]
  obtain n' where "disambiguate dest (file_name p) = Some n'" "n' \<notin> set (map fst dest)"
    by blast
  with assms Inr show ?thesis
    by (auto simp: transfer_file_def split: if_splits)
qed

lemma map_of_kept:
  assumes "map_of dest n = Some c" and "n' \<notin> set (map fst dest)"
  shows "map_of (dest @ [(n', content)]) n = Some c"
  using assms by (simp add: map_add_Some_iff)

lemma transfer_file_keeps:
  assumes "transfer_file src dest p = Inr (out, dest')" and "map_of dest n = Some c"
  shows "map_of dest' n = Some c"
  using transfer_file_extends [OF assms(1)] assms(2) by (auto simp: map_of_kept)

lemma transfer_files_keeps:
  "transfer_files src dest ps = Inr (outs, dest') \<Longrightarrow> map_of dest n = Some c \<Longrightarrow>
   map_of dest' n = Some c"
proof (induction ps arbitrary: dest outs)
  case Nil
  then show ?case by simp
next
  case (Cons p ps)
  from Cons.prems(1) obtain out d1 outs1 where
    a: "transfer_file src dest p = Inr (out, d1)" and b: "transfer_files src d1 ps = Inr (outs1, dest')"
    by (auto split: sum.splits prod.splits)
  from Cons.IH [OF b transfer_file_keeps [OF a Cons.prems(2)]] show ?case .
qed

text \<open>
  Claim C4. Let a source file be readable, let the destination hold an entry of its
  name, and let the duplicate check not flag the file (no entry of its name and size).
  Then the pipeline copies the file under another name, one the destination did not
  hold, and every file the destination held keeps its name and content. Over a whole
  transfer, too, every file the destination held at the start is there at the end with
  the same content.
\<close>

theorem name_collision_disambiguated:
  assumes "src p = Inr content"
    and "file_name p \<in> set (map fst dest)"
    and "check_existing [\<lparr>cand_path = p, cand_size = length content\<rparr>] (listing dest) = [False]"
  shows "(\<exists>n'. transfer_file src dest p = Inr (Copied, dest @ [(n', content)]) \<and>
            n' \<notin> set (map fst dest) \<and> n' \<noteq> file_name p \<and>
            map_of (dest @ [(n', content)]) n' = Some content \<and>
            (\<forall>n c. map_of dest n = Some c \<longrightarrow> map_of (dest @ [(n', content)]) n = Some c)) \<and>
         (\<forall>ps outs dest' n c. transfer_files src dest ps = Inr (outs, dest') \<and>
            map_of dest n = Some c \<longrightarrow> map_of dest' n = Some c)"
proof -
  from assms(3) have nf: "\<not> exists_in (listing dest) \<lparr>cand_path = p, cand_size = length content\<rparr>"
    by (simp add: check_existing_def)
  from disambiguate_fresh [of dest "file_name p"]
  obtain n' where n': "disambiguate dest (file_name p) = Some n'" "n' \<notin> set (map fst dest)"
    by blast
  have t: "transfer_file src dest p = Inr (Copied, dest @ [(n', content)])"
    using assms(1,2) nf n'(1) by (simp add: transfer_file_def)
  have d: "n' \<noteq> file_name p" using n'(2) assms(2) by auto
  have m: "map_of (dest @ [(n', content)]) n' = Some content"
    using n'(2) by (simp add: map_add_Some_iff map_of_eq_None_iff)
  have k: "\<forall>n c. map_of dest n = Some c \<longrightarrow> map_of (dest @ [(n', content)]) n = Some c"
    using n'(2) by (simp add: map_of_kept)
  have w: "\<forall>ps outs dest' n c. transfer_files src dest ps = Inr (outs, dest') \<and>
            map_of dest n = Some c \<longrightarrow> map_of dest' n = Some c"
    using transfer_files_keeps by blast
  from t n'(2) d m k w show ?thesis by blast
qed


theorem name_collision_disambiguated_witness:
  "\<exists>n'. transfer_file photo_source [(''photo.jpg'', replicate 500 CHR ''x'')] ''/sd/photo.jpg''
       = Inr (Copied, [(''photo.jpg'', replicate 500 CHR ''x''), (n', ''new photo'')]) \<and>
     n' \<noteq> ''photo.jpg'' \<and>
     map_of [(''photo.jpg'', replicate 500 CHR ''x''), (n', ''new photo'')] ''photo.jpg''
       = Some (replicate 500 CHR ''x'')"
proof -
  let ?dest = "[(''photo.jpg'', replicate 500 CHR ''x'')]"
  have a: "photo_source ''/sd/photo.jpg'' = Inr ''new photo''" by (simp add: photo_source_def)
  have b: "file_name ''/sd/photo.jpg'' \<in> set (map fst ?dest)" by (simp add: file_name_def)
  have c: "check_existing [\<lparr>cand_path = ''/sd/photo.jpg'', cand_size = length ''new photo''\<rparr>]
      (listing ?dest) = [False]"
    by (simp add: check_existing_def exists_in_def listing_def)
  have f: "file_name ''/sd/photo.jpg'' = ''photo.jpg''" by (simp add: file_name_def)
  from name_collision_disambiguated [where src = photo_source and p = "''/sd/photo.jpg''"
      and content = "''new photo''" and dest = ?dest, OF a b c]
  obtain n' where "transfer_file photo_source ?dest ''/sd/photo.jpg''
      = Inr (Copied, ?dest @ [(n', ''new photo'')])"
    and "n' \<noteq> file_name ''/sd/photo.jpg''"
    and "\<forall>n c. map_of ?dest n = Some c \<longrightarrow> map_of (?dest @ [(n', ''new photo'')]) n = Some c"
    by (elim conjE exE) (rule that, assumption+)
  then show ?thesis unfolding f by (intro exI [of _ n']) simp
qed

subsection \<open>The loop\<close>

lemma transfer_file_fault:
  "src p = Inl (FileFault reason) \<Longrightarrow> transfer_file src dest p = Inr (Failed reason, dest)"
  by (simp add: transfer_file_def)

lemma transfer_file_abort:
  "transfer_file src dest p = Inl reason \<Longrightarrow> src p = Inl (DestinationFault reason)"
  by (auto simp: transfer_file_def split: sum.splits copy_fault.splits if_splits option.splits)

lemma transfer_files_length:
  "transfer_files src dest ps = Inr (outs, dest') \<Longrightarrow> length outs = length ps"
proof (induction ps arbitrary: dest outs)
  case Nil
  then show ?case by simp
next
  case (Cons p ps)
  then show ?case by (auto split: sum.splits prod.splits)
qed

lemma transfer_files_failed_nth:
  "transfer_files src dest ps = Inr (outs, dest') \<Longrightarrow> i < length ps \<Longrightarrow>
   src (ps ! i) = Inl (FileFault reason) \<Longrightarrow> outs ! i = Failed reason"
proof (induction ps arbitrary: dest outs i)
  case Nil
  then show ?case by simp
next
  case (Cons p ps)
  from Cons.prems(1) obtain out d1 outs1 where
    a: "transfer_file src dest p = Inr (out, d1)" and b: "transfer_files src d1 ps = Inr (outs1, dest')"
    and o: "outs = out # outs1"
    by (auto split: sum.splits prod.splits)
  show ?case
  proof (cases i)
    case 0
    with Cons.prems(3) a o show ?thesis by (simp add: transfer_file_fault)
  next
    case (Suc j)
    with Cons.prems(2,3) Cons.IH [OF b, of j] o show ?thesis by simp
  qed
qed

lemma transfer_files_abort:
  "transfer_files src dest ps = Inl reason \<Longrightarrow>
   \<exists>p \<in> set ps. src p = Inl (DestinationFault reason)"
proof (induction ps arbitrary: dest)
  case Nil
  then show ?case by simp
next
  case (Cons p ps)
  then show ?case
    by (auto split: sum.splits prod.splits dest: transfer_file_abort)
qed

lemma transfer_files_append:
  "transfer_files src dest (ps @ qs) =
     (case transfer_files src dest ps of
        Inl reason \<Rightarrow> Inl reason
      | Inr (outs1, d1) \<Rightarrow>
          (case transfer_files src d1 qs of
             Inl reason \<Rightarrow> Inl reason
           | Inr (outs2, d2) \<Rightarrow> Inr (outs1 @ outs2, d2)))"
  by (induction ps arbitrary: dest) (auto split: sum.splits prod.splits)

text \<open>
  Claim C2. A file whose copy fails is recorded as \<open>failed(reason)\<close> at its place and the
  files after it are copied as if it had not been in the list: the destination is as
  before its turn. A transfer that returns a result has one outcome per source file, in
  order, and the outcome of every file whose copy fails is \<open>failed\<close> with its reason. The
  transfer as a whole fails only on a failure of the destination at one of the files, or
  when the list is not empty and every file failed.
\<close>

theorem transfer_continues_after_file_failure:
  "(src p = Inl (FileFault reason) \<and> transfer_files src dest ps = Inr (outs1, d1) \<longrightarrow>
      transfer_files src dest (ps @ p # qs) =
        (case transfer_files src d1 qs of
           Inl e \<Rightarrow> Inl e
         | Inr (outs2, d2) \<Rightarrow> Inr (outs1 @ Failed reason # outs2, d2))) \<and>
   (transfer src paths dest = Inr (res, dest') \<longrightarrow>
      length (outcomes res) = length paths \<and>
      (\<forall>i < length paths. \<forall>r. src (paths ! i) = Inl (FileFault r) \<longrightarrow>
         outcomes res ! i = Failed r)) \<and>
   (transfer src paths dest = Inl err \<longrightarrow>
      (\<exists>r. err = DestinationError r \<and> (\<exists>p \<in> set paths. src p = Inl (DestinationFault r))) \<or>
      (\<exists>outs. err = AllFilesFailed outs \<and> paths \<noteq> [] \<and> length outs = length paths \<and>
         list_all is_failed outs))"
proof (intro conjI impI)
  assume "src p = Inl (FileFault reason) \<and> transfer_files src dest ps = Inr (outs1, d1)"
  then show "transfer_files src dest (ps @ p # qs) =
        (case transfer_files src d1 qs of
           Inl e \<Rightarrow> Inl e
         | Inr (outs2, d2) \<Rightarrow> Inr (outs1 @ Failed reason # outs2, d2))"
    by (simp add: transfer_files_append transfer_file_fault split: sum.splits prod.splits)
next
  assume a: "transfer src paths dest = Inr (res, dest')"
  then obtain outs where t: "transfer_files src dest paths = Inr (outs, dest')"
    and o: "outcomes res = outs"
    by (auto simp: transfer_def split: sum.splits prod.splits if_splits)
  show "length (outcomes res) = length paths"
    using transfer_files_length [OF t] o by simp
  show "\<forall>i < length paths. \<forall>r. src (paths ! i) = Inl (FileFault r) \<longrightarrow>
         outcomes res ! i = Failed r"
    using transfer_files_failed_nth [OF t] o by simp
next
  assume a: "transfer src paths dest = Inl err"
  show "(\<exists>r. err = DestinationError r \<and> (\<exists>p \<in> set paths. src p = Inl (DestinationFault r))) \<or>
      (\<exists>outs. err = AllFilesFailed outs \<and> paths \<noteq> [] \<and> length outs = length paths \<and>
         list_all is_failed outs)"
  proof (cases "transfer_files src dest paths")
    case (Inl r)
    with a have "err = DestinationError r" by (simp add: transfer_def)
    with transfer_files_abort [OF Inl] show ?thesis by blast
  next
    case (Inr x)
    obtain outs d where x: "x = (outs, d)" by (cases x)
    with a Inr have e: "err = AllFilesFailed outs" and n: "outs \<noteq> []" and f: "list_all is_failed outs"
      by (auto simp: transfer_def split: if_splits)
    from transfer_files_length [of src dest paths outs d] Inr x
    have l: "length outs = length paths" by simp
    with n have "paths \<noteq> []" by auto
    with e l f show ?thesis by blast
  qed
qed

theorem transfer_continues_after_file_failure_witness:
  "\<exists>res dest'.
     transfer three_sources [''/sd/one.jpg'', ''/sd/two.jpg'', ''/sd/three.jpg''] [] = Inr (res, dest') \<and>
     outcomes res = [Copied, Failed ''permission denied'', Copied] \<and>
     transfer_files three_sources [] ([''/sd/one.jpg''] @ ''/sd/two.jpg'' # [''/sd/three.jpg''])
       = Inr ([Copied] @ Failed ''permission denied'' # [Copied], dest') \<and>
     (\<exists>outs. transfer three_sources [''/sd/two.jpg'', ''/sd/none.jpg''] [] = Inl (AllFilesFailed outs) \<and>
        list_all is_failed outs)"
proof -
  let ?paths = "[''/sd/one.jpg'', ''/sd/two.jpg'', ''/sd/three.jpg'']"
  have two: "three_sources ''/sd/two.jpg'' = Inl (FileFault ''permission denied'')"
    by (simp add: three_sources_def)
  have one: "transfer_files three_sources [] [''/sd/one.jpg''] = Inr ([Copied], [(''one.jpg'', ''11111'')])"
    by (simp add: three_sources_def transfer_file_def exists_in_def listing_def file_name_def)
  have three: "transfer_files three_sources [(''one.jpg'', ''11111'')] [''/sd/three.jpg'']
      = Inr ([Copied], [(''one.jpg'', ''11111''), (''three.jpg'', ''333'')])"
    by (simp add: three_sources_def transfer_file_def exists_in_def listing_def file_name_def)
  let ?d = "[(''one.jpg'', ''11111''), (''three.jpg'', ''333'')]"
  from transfer_continues_after_file_failure [of three_sources "''/sd/two.jpg''"
      "''permission denied''" "[]" "[''/sd/one.jpg'']" "[Copied]" "[(''one.jpg'', ''11111'')]"
      "[''/sd/three.jpg'']"] two one three
  have run: "transfer_files three_sources [] ([''/sd/one.jpg''] @ ''/sd/two.jpg'' # [''/sd/three.jpg''])
       = Inr ([Copied] @ Failed ''permission denied'' # [Copied], ?d)"
    by simp
  then have "transfer_files three_sources [] ?paths = Inr ([Copied, Failed ''permission denied'', Copied], ?d)"
    by simp
  then obtain res where res: "transfer three_sources ?paths [] = Inr (res, ?d)"
    and o: "outcomes res = [Copied, Failed ''permission denied'', Copied]"
    by (simp add: transfer_def is_failed_def)
  have "transfer three_sources [''/sd/two.jpg'', ''/sd/none.jpg''] []
      = Inl (AllFilesFailed [Failed ''permission denied'', Failed ''no such file''])"
    by (simp add: transfer_def three_sources_def transfer_file_def is_failed_def)
  then have f: "\<exists>outs. transfer three_sources [''/sd/two.jpg'', ''/sd/none.jpg''] [] = Inl (AllFilesFailed outs) \<and>
        list_all is_failed outs"
    by (simp add: is_failed_def)
  show ?thesis
    by (rule exI [of _ res], rule exI [of _ ?d]) (simp only: res o run f simp_thms)
qed


end
